theory Spec2Isabelle
  imports Main "HOL-Library.Word"
begin

unbundle bit_operations_syntax

section \<open>Strings\<close>

text \<open>
  A Python \<open>str\<close> is modelled as a HOL \<open>string\<close>; a \<open>char\<close> stands for the code
  point of the same number (0 to 255).  \<open>is_space\<close> is \<open>str.isspace\<close> on one character,
  which is also what the regular expression class \<open>\s\<close> matches on a \<open>str\<close> pattern:
  TAB, LF, VT, FF, CR, the separators 0x1C to 0x1F, SPACE, NEL (0x85) and NBSP (0xA0).
\<close>

definition newline :: char where
  "newline = CHR 0x0A"

definition is_space :: "char \<Rightarrow> bool" where
  "is_space c =
     (let n = (of_char c :: nat)
      in (9 \<le> n \<and> n \<le> 13) \<or> (28 \<le> n \<and> n \<le> 32) \<or> n = 133 \<or> n = 160)"

text \<open>\<open>s.strip()\<close>: leading and trailing whitespace removed.\<close>

definition strip :: "string \<Rightarrow> string" where
  "strip s = rev (dropWhile is_space (rev (dropWhile is_space s)))"

text \<open>\<open>s.startswith(p)\<close>.\<close>

definition startswith :: "string \<Rightarrow> string \<Rightarrow> bool" where
  "startswith s p = (take (length p) s = p)"

text \<open>\<open>'\n'.join(xs) + '\n'\<close>: every element followed by a line feed.\<close>

definition join_nl :: "string list \<Rightarrow> string" where
  "join_nl xs = concat (map (\<lambda>x. x @ [newline]) xs)"

section \<open>Substitution of a delimited span\<close>

text \<open>
  \<open>find_close cl s\<close> is the lazy group \<open>(.*?)\<close> followed by the literal \<open>cl\<close>, matched at
  the start of \<open>s\<close>: the group grows one character at a time, never over a line feed, and
  stops at the first place where \<open>cl\<close> follows.  The result is the group and the text after
  the closing literal.
\<close>

fun find_close :: "string \<Rightarrow> string \<Rightarrow> (string \<times> string) option" where
  "find_close cl [] = (if cl = [] then Some ([], []) else None)"
| "find_close cl (c # s) =
     (if startswith (c # s) cl then Some ([], drop (length cl) (c # s))
      else if c = newline then None
      else (case find_close cl s of
              None \<Rightarrow> None
            | Some (x, rest) \<Rightarrow> Some (c # x, rest)))"

lemma find_close_length: "find_close cl s = Some (x, rest) \<Longrightarrow> length rest \<le> length s"
proof (induction s arbitrary: x rest)
  case Nil
  then show ?case by (simp split: if_splits)
next
  case (Cons c s)
  then show ?case
    by (auto split: if_splits option.splits simp: le_SucI)
qed

text \<open>
  \<open>re_sub op cl f text\<close> is \<open>re.sub\<close> of the pattern made of the literal \<open>op\<close>, the lazy
  group \<open>(.*?)\<close> and the literal \<open>cl\<close>, with the replacement \<open>f\<close> applied to the group:
  the text is scanned from the left, the leftmost match is replaced and the scan goes on
  after it; where no match starts, the character is kept.  The opening literals of the
  source are never empty.
\<close>

function re_sub :: "string \<Rightarrow> string \<Rightarrow> (string \<Rightarrow> string) \<Rightarrow> string \<Rightarrow> string" where
  "re_sub op cl f [] = []"
| "re_sub op cl f (c # s) =
     (if op \<noteq> [] \<and> startswith (c # s) op then
        (case find_close cl (drop (length op) (c # s)) of
           Some (x, rest) \<Rightarrow> f x @ re_sub op cl f rest
         | None \<Rightarrow> c # re_sub op cl f s)
      else c # re_sub op cl f s)"
  by pat_completeness auto
termination
proof (relation "measure (\<lambda>(op, cl, f, t). length t)")
  show "wf (measure (\<lambda>(op, cl, f, t). length t))" by simp
next
  fix op cl :: string and f :: "string \<Rightarrow> string" and c s x2 x rest
  assume a: "op \<noteq> [] \<and> startswith (c # s) op"
    and b: "find_close cl (drop (length op) (c # s)) = Some x2" and c: "(x, rest) = x2"
  from b c have "length rest \<le> length (drop (length op) (c # s))"
    using find_close_length by metis
  moreover from a have "length (drop (length op) (c # s)) < length (c # s)"
    by (cases op) auto
  ultimately show "((op, cl, f, rest), (op, cl, f, c # s)) \<in> measure (\<lambda>(op, cl, f, t). length t)"
    by simp
qed auto

section \<open>Inline transformer\<close>

text \<open>\<open>remove_c\<close>: \<open>re.sub(r'[cC]', '', text)\<close>, every \<open>c\<close> and \<open>C\<close> dropped.\<close>

fun remove_c :: "string \<Rightarrow> string" where
  "remove_c [] = []"
| "remove_c (c # s) = (if c = CHR ''c'' \<or> c = CHR ''C'' then remove_c s else c # remove_c s)"

subsection \<open>\<open>md5_hash\<close>\<close>

text \<open>
  \<open>hashlib.md5(text.encode()).hexdigest()\<close>.  \<open>encode\<close> is the UTF-8 encoding (the default
  of \<open>str.encode\<close>) of code points below 256; \<open>md5_digest\<close> is the MD5 message digest of
  the standard library (RFC 1321) on 32-bit words; \<open>hexdigest\<close> writes each byte as two
  lowercase hexadecimal digits.
\<close>

type_synonym byte = "8 word"
type_synonym word32 = "32 word"

definition encode :: "string \<Rightarrow> byte list" where
  "encode s = concat (map (\<lambda>c. let n = (of_char c :: nat)
                               in if n < 128 then [of_nat n]
                                  else [of_nat (192 + n div 64), of_nat (128 + n mod 64)]) s)"

definition md5_K :: "word32 list" where
  "md5_K =
    [0xd76aa478, 0xe8c7b756, 0x242070db, 0xc1bdceee,
     0xf57c0faf, 0x4787c62a, 0xa8304613, 0xfd469501,
     0x698098d8, 0x8b44f7af, 0xffff5bb1, 0x895cd7be,
     0x6b901122, 0xfd987193, 0xa679438e, 0x49b40821,
     0xf61e2562, 0xc040b340, 0x265e5a51, 0xe9b6c7aa,
     0xd62f105d, 0x02441453, 0xd8a1e681, 0xe7d3fbc8,
     0x21e1cde6, 0xc33707d6, 0xf4d50d87, 0x455a14ed,
     0xa9e3e905, 0xfcefa3f8, 0x676f02d9, 0x8d2a4c8a,
     0xfffa3942, 0x8771f681, 0x6d9d6122, 0xfde5380c,
     0xa4beea44, 0x4bdecfa9, 0xf6bb4b60, 0xbebfbc70,
     0x289b7ec6, 0xeaa127fa, 0xd4ef3085, 0x04881d05,
     0xd9d4d039, 0xe6db99e5, 0x1fa27cf8, 0xc4ac5665,
     0xf4292244, 0x432aff97, 0xab9423a7, 0xfc93a039,
     0x655b59c3, 0x8f0ccc92, 0xffeff47d, 0x85845dd1,
     0x6fa87e4f, 0xfe2ce6e0, 0xa3014314, 0x4e0811a1,
     0xf7537e82, 0xbd3af235, 0x2ad7d2bb, 0xeb86d391]"

definition md5_S :: "nat list" where
  "md5_S =
    [7, 12, 17, 22, 7, 12, 17, 22, 7, 12, 17, 22, 7, 12, 17, 22,
     5, 9, 14, 20, 5, 9, 14, 20, 5, 9, 14, 20, 5, 9, 14, 20,
     4, 11, 16, 23, 4, 11, 16, 23, 4, 11, 16, 23, 4, 11, 16, 23,
     6, 10, 15, 21, 6, 10, 15, 21, 6, 10, 15, 21, 6, 10, 15, 21]"

definition rotl32 :: "nat \<Rightarrow> word32 \<Rightarrow> word32" where
  "rotl32 s x = push_bit s x OR drop_bit (32 - s) x"

text \<open>The \<open>k\<close> low bytes of a word, least significant first.\<close>

definition le_bytes :: "nat \<Rightarrow> 'a::len word \<Rightarrow> byte list" where
  "le_bytes k w = map (\<lambda>j. ucast (drop_bit (8 * j) w)) [0..<k]"

text \<open>
  Padding: the byte 0x80, zero bytes up to 56 modulo 64, and the length of the message in
  bits as a 64-bit little-endian number.
\<close>

definition md5_pad :: "byte list \<Rightarrow> byte list" where
  "md5_pad bs =
     bs @ [0x80] @ replicate ((119 - length bs mod 64) mod 64) 0
        @ le_bytes 8 (of_nat (8 * length bs) :: 64 word)"

fun le_word :: "byte list \<Rightarrow> word32" where
  "le_word [] = 0"
| "le_word (b # bs) = ucast b OR push_bit 8 (le_word bs)"

fun chunks :: "nat \<Rightarrow> 'a list \<Rightarrow> 'a list list" where
  "chunks n [] = []"
| "chunks n (x # xs) =
     (if n = 0 then [] else take n (x # xs) # chunks n (drop n (x # xs)))"

type_synonym md5_state = "word32 \<times> word32 \<times> word32 \<times> word32"

definition md5_step :: "word32 list \<Rightarrow> md5_state \<Rightarrow> nat \<Rightarrow> md5_state" where
  "md5_step m st i =
     (case st of (a, b, c, d) \<Rightarrow>
        let (f, g) =
             (if i < 16 then ((b AND c) OR (NOT b AND d), i)
              else if i < 32 then ((d AND b) OR (NOT d AND c), (5 * i + 1) mod 16)
              else if i < 48 then (b XOR c XOR d, (3 * i + 5) mod 16)
              else (c XOR (b OR NOT d), (7 * i) mod 16));
            f' = f + a + md5_K ! i + m ! g
        in (d, b + rotl32 (md5_S ! i) f', b, c))"

definition md5_block :: "md5_state \<Rightarrow> byte list \<Rightarrow> md5_state" where
  "md5_block st blk =
     (let m = map le_word (chunks 4 blk)
      in case (st, foldl (md5_step m) st [0..<64]) of
           ((a0, b0, c0, d0), (a, b, c, d)) \<Rightarrow> (a0 + a, b0 + b, c0 + c, d0 + d))"

definition md5_init :: md5_state where
  "md5_init = (0x67452301, 0xefcdab89, 0x98badcfe, 0x10325476)"

definition md5_digest :: "byte list \<Rightarrow> byte list" where
  "md5_digest bs =
     (case foldl md5_block md5_init (chunks 64 (md5_pad bs)) of
        (a, b, c, d) \<Rightarrow> concat (map (le_bytes 4) [a, b, c, d]))"

definition hex_digit :: "nat \<Rightarrow> char" where
  "hex_digit n = (''0123456789abcdef'') ! (n mod 16)"

definition hex_byte :: "byte \<Rightarrow> string" where
  "hex_byte b = [hex_digit (unat b div 16), hex_digit (unat b mod 16)]"

definition hexdigest :: "byte list \<Rightarrow> string" where
  "hexdigest bs = concat (map hex_byte bs)"

definition md5_hash :: "string \<Rightarrow> string" where
  "md5_hash text = hexdigest (md5_digest (encode text))"

subsection \<open>\<open>parse_inline_markdown\<close>\<close>

text \<open>
  Four substitution passes, each over the result of the one before:
  \<open>\*\*(.*?)\*\*\<close> to \<open><b>\1</b>\<close>, \<open>__(.*?)__\<close> to \<open><em>\1</em>\<close>,
  \<open>\[\[(.*?)\]\]\<close> to the MD5 digest of the group, \<open>\(\((.*?)\)\)\<close> to the group
  without its \<open>c\<close> and \<open>C\<close>.
\<close>

definition sub_bold :: "string \<Rightarrow> string" where
  "sub_bold = re_sub ''**'' ''**'' (\<lambda>x. ''<b>'' @ x @ ''</b>'')"

definition sub_em :: "string \<Rightarrow> string" where
  "sub_em = re_sub ''__'' ''__'' (\<lambda>x. ''<em>'' @ x @ ''</em>'')"

definition sub_md5 :: "string \<Rightarrow> string" where
  "sub_md5 = re_sub ''[['' '']]'' md5_hash"

definition sub_remove_c :: "string \<Rightarrow> string" where
  "sub_remove_c = re_sub ''(('' ''))'' remove_c"

definition parse_inline_markdown :: "string \<Rightarrow> string" where
  "parse_inline_markdown text =
     (let text = sub_bold text;
          text = sub_em text;
          text = sub_md5 text;
          text = sub_remove_c text
      in text)"

section \<open>Block parser\<close>

subsection \<open>\<open>parse_headings\<close>\<close>

text \<open>\<open>str(n)\<close> of a length, as the f-string writes the level.\<close>

function str_nat :: "nat \<Rightarrow> string" where
  "str_nat n =
     (if n < 10 then [char_of (48 + n)]
      else str_nat (n div 10) @ [char_of (48 + n mod 10)])"
  by pat_completeness auto
termination
  by (relation "measure id") auto

declare str_nat.simps [simp del]

text \<open>
  The tail \<open>(.+)$\<close> of the heading pattern at the start of \<open>s\<close>: the greedy group takes the
  characters up to the first line feed and must be non-empty; \<open>$\<close> holds at the end of the
  string and just before a line feed that ends it.  A shorter group is followed by a
  character that is not a line feed, where \<open>$\<close> fails.
\<close>

definition match_content :: "string \<Rightarrow> string option" where
  "match_content s =
     (let g = takeWhile (\<lambda>c. c \<noteq> newline) s; r = dropWhile (\<lambda>c. c \<noteq> newline) s
      in if g \<noteq> [] \<and> (r = [] \<or> r = [newline]) then Some g else None)"

text \<open>
  The rest of the pattern once \<open>#{1,6}\<close> has taken \<open>j\<close> characters: one character of the
  class \<open>\s\<close>, then \<open>(.+)$\<close>.  The result is the pair of groups.
\<close>

definition match_after_hashes :: "nat \<Rightarrow> string \<Rightarrow> (string \<times> string) option" where
  "match_after_hashes j line =
     (case drop j line of
        [] \<Rightarrow> None
      | w # rest \<Rightarrow>
          if is_space w then
            (case match_content rest of
               None \<Rightarrow> None
             | Some g \<Rightarrow> Some (take j line, g))
          else None)"

text \<open>Backtracking over \<open>#{1,6}\<close>: the longest run first, down to one character.\<close>

fun try_hashes :: "nat \<Rightarrow> string \<Rightarrow> (string \<times> string) option" where
  "try_hashes 0 line = None"
| "try_hashes (Suc j) line =
     (case match_after_hashes (Suc j) line of
        Some r \<Rightarrow> Some r
      | None \<Rightarrow> try_hashes j line)"

text \<open>\<open>re.match(r'^(#{1,6})\s(.+)$', line)\<close>: the groups, or \<open>None\<close>.\<close>

definition match_heading :: "string \<Rightarrow> (string \<times> string) option" where
  "match_heading line =
     try_hashes (min 6 (length (takeWhile (\<lambda>c. c = CHR ''#'') line))) line"

definition parse_headings :: "string \<Rightarrow> string option" where
  "parse_headings line =
     (case match_heading line of
        Some (g1, g2) \<Rightarrow>
          (let level = length g1;
               content = parse_inline_markdown g2
           in Some (''<h'' @ str_nat level @ ''>'' @ content @ ''</h'' @ str_nat level @ ''>''
                    @ [newline]))
      | None \<Rightarrow> None)"

subsection \<open>\<open>parse_unordered_list\<close> and \<open>parse_ordered_list\<close>\<close>

text \<open>The \<open>for\<close> loop of \<open>parse_unordered_list\<close>, with \<open>html_list\<close> as accumulator.\<close>

fun ul_loop :: "string list \<Rightarrow> string list \<Rightarrow> string list" where
  "ul_loop [] html_list = html_list"
| "ul_loop (line # lines) html_list =
     (if startswith line ''- '' then
        (let item = parse_inline_markdown (strip (drop 2 line))
         in ul_loop lines (html_list @ [''<li>'' @ item @ ''</li>'']))
      else html_list)"

definition parse_unordered_list :: "string list \<Rightarrow> (string \<times> nat) option" where
  "parse_unordered_list lines =
     (case lines of
        [] \<Rightarrow> None
      | l0 # _ \<Rightarrow>
          if \<not> startswith l0 ''- '' then None
          else (let html_list = ul_loop lines [''<ul>''];
                    html_list = html_list @ [''</ul>'']
                in Some (join_nl html_list, length html_list - 2)))"

text \<open>The \<open>for\<close> loop of \<open>parse_ordered_list\<close>.\<close>

fun ol_loop :: "string list \<Rightarrow> string list \<Rightarrow> string list" where
  "ol_loop [] html_list = html_list"
| "ol_loop (line # lines) html_list =
     (if startswith line ''* '' then
        (let item = parse_inline_markdown (strip (drop 2 line))
         in ol_loop lines (html_list @ [''<li>'' @ item @ ''</li>'']))
      else html_list)"

definition parse_ordered_list :: "string list \<Rightarrow> (string \<times> nat) option" where
  "parse_ordered_list lines =
     (case lines of
        [] \<Rightarrow> None
      | l0 # _ \<Rightarrow>
          if \<not> startswith l0 ''* '' then None
          else (let html_list = ol_loop lines [''<ol>''];
                    html_list = html_list @ [''</ol>'']
                in Some (join_nl html_list, length html_list - 2)))"

subsection \<open>\<open>parse_paragraph\<close>\<close>

text \<open>
  The \<open>for i, line in enumerate(lines)\<close> loop, with the index \<open>i\<close> and \<open>html_para\<close> as
  accumulator.
\<close>

fun para_loop :: "nat \<Rightarrow> string list \<Rightarrow> string list \<Rightarrow> string list" where
  "para_loop i [] html_para = html_para"
| "para_loop i (line # lines) html_para =
     (if strip line = [] then html_para
      else (let html_para = (if i > 0 then html_para @ [''<br/>''] else html_para)
            in para_loop (i + 1) lines (html_para @ [parse_inline_markdown (strip line)])))"

definition parse_paragraph :: "string list \<Rightarrow> (string \<times> nat) option" where
  "parse_paragraph lines =
     (case lines of
        [] \<Rightarrow> None
      | l0 # _ \<Rightarrow>
          if strip l0 = [] then None
          else (let html_para = para_loop 0 lines [''<p>''];
                    html_para = html_para @ [''</p>'']
                in Some (join_nl html_para, length html_para - 2)))"

subsection \<open>The scan of \<open>convert_markdown_to_html\<close>\<close>

text \<open>
  One iteration of the \<open>while\<close> loop at cursor \<open>i\<close>: the new cursor and the fragments
  written to the output file so far.  \<open>if heading:\<close> is false for \<open>None\<close> and for the empty
  string; a result tuple is always true.
\<close>

definition loop_body :: "string list \<Rightarrow> nat \<Rightarrow> string list \<Rightarrow> nat \<times> string list" where
  "loop_body lines i out =
     (let line = strip (lines ! i);
          heading = parse_headings line
      in if (case heading of None \<Rightarrow> False | Some h \<Rightarrow> h \<noteq> []) then (i + 1, out @ [the heading])
         else (case parse_unordered_list (drop i lines) of
                 Some (html_list, items_count) \<Rightarrow> (i + items_count, out @ [html_list])
               | None \<Rightarrow>
           (case parse_ordered_list (drop i lines) of
                 Some (html_list, items_count) \<Rightarrow> (i + items_count, out @ [html_list])
               | None \<Rightarrow>
           (case parse_paragraph (drop i lines) of
                 Some (html_para, lines_count) \<Rightarrow> (i + lines_count, out @ [html_para])
               | None \<Rightarrow> (i + 1, out)))))"

text \<open>
  The \<open>while i < len(lines)\<close> loop.  It is defined without a termination argument: the
  result is \<open>None\<close> where the loop does not end.
\<close>

partial_function (option) scan_loop :: "string list \<Rightarrow> nat \<Rightarrow> string list \<Rightarrow> string list option"
  where
  "scan_loop lines i out =
     (if i < length lines then
        scan_loop lines (fst (loop_body lines i out)) (snd (loop_body lines i out))
      else Some out)"

declare scan_loop.simps [code]

text \<open>
  The body of \<open>convert_markdown_to_html\<close> on the lines read from the input file: the
  fragments written, in order.
\<close>

definition convert_lines :: "string list \<Rightarrow> string list option" where
  "convert_lines lines = scan_loop lines 0 []"

section \<open>Driver\<close>

text \<open>
  The driver reaches the outside world through \<open>os.path.exists\<close>, \<open>open\<close>, \<open>readlines\<close>,
  \<open>write\<close> and the closing of the two files at the end of the \<open>with\<close> block.  What they
  do is not part of the program: it is taken as a parameter, a tuple of operations on a
  state of the world \<open>'w\<close>.  Every operation but \<open>os.path.exists\<close> may raise, and returns
  the world as it has left it; \<open>readlines\<close> returns the lines as Python hands them over.
\<close>

datatype exn = FileNotFoundError | IsADirectoryError | PermissionError | UnicodeDecodeError | OSError

text \<open>The two file objects of \<open>convert_markdown_to_html\<close>: \<open>md_file\<close>, opened for
  reading, and \<open>html_file\<close>, opened for writing.\<close>

datatype handle = Md_file | Html_file

datatype 'w os = OS
  (path_exists: "string \<Rightarrow> 'w \<Rightarrow> bool")
  (open_file: "handle \<Rightarrow> string \<Rightarrow> 'w \<Rightarrow> exn option \<times> 'w")
  (readlines: "'w \<Rightarrow> (exn + string list) \<times> 'w")
  (write_text: "string \<Rightarrow> 'w \<Rightarrow> exn option \<times> 'w")
  (close_file: "handle \<Rightarrow> 'w \<Rightarrow> exn option \<times> 'w")

text \<open>How the process ends: \<open>sys.exit\<close> with a status after writing to \<open>stderr\<close>, or an
  exception nobody catches.\<close>

datatype outcome = Exit nat string | Uncaught exn

text \<open>The fragments of one iteration written to \<open>html_file\<close>, up to the first \<open>write\<close>
  that raises.\<close>

fun write_all :: "'w os \<Rightarrow> string list \<Rightarrow> 'w \<Rightarrow> exn option \<times> 'w" where
  "write_all io [] w = (None, w)"
| "write_all io (s # ss) w =
     (case write_text io s w of
        (Some e, w') \<Rightarrow> (Some e, w')
      | (None, w') \<Rightarrow> write_all io ss w')"

text \<open>
  The \<open>while\<close> loop with its writes: each iteration is \<open>loop_body\<close>, and what it adds to
  the output is written at once; an exception ends the loop.  The result is \<open>None\<close> where
  the loop does not end.
\<close>

partial_function (option) write_loop ::
    "'w os \<Rightarrow> string list \<Rightarrow> nat \<Rightarrow> 'w \<Rightarrow> (exn option \<times> 'w) option" where
  "write_loop io lines i w =
     (if i < length lines then
        (let r = write_all io (snd (loop_body lines i [])) w
         in if fst r \<noteq> None then Some r
            else write_loop io lines (fst (loop_body lines i [])) (snd r))
      else Some (None, w))"

text \<open>Leaving a \<open>with\<close> block closes the file; an exception raised by the closing takes
  the place of the one on its way, if any.\<close>

definition exit_with :: "'w os \<Rightarrow> handle \<Rightarrow> exn option \<Rightarrow> 'w \<Rightarrow> exn option \<times> 'w" where
  "exit_with io h pending w =
     (case close_file io h w of
        (Some e, w') \<Rightarrow> (Some e, w')
      | (None, w') \<Rightarrow> (pending, w'))"

text \<open>
  \<open>convert_markdown_to_html\<close>: the input is opened, then the output, then the lines are
  read and scanned; both files are closed on the way out, the output first.  The result
  is the exception that leaves the function, if any, and the world.
\<close>

definition convert_markdown_to_html ::
    "'w os \<Rightarrow> string \<Rightarrow> string \<Rightarrow> 'w \<Rightarrow> (exn option \<times> 'w) option" where
  "convert_markdown_to_html io input_file output_file w =
     (case open_file io Md_file input_file w of
        (Some e, w1) \<Rightarrow> Some (Some e, w1)
      | (None, w1) \<Rightarrow>
          (case open_file io Html_file output_file w1 of
             (Some e, w2) \<Rightarrow> Some (exit_with io Md_file (Some e) w2)
           | (None, w2) \<Rightarrow>
               (case (case readlines io w2 of
                        (Inl e, w3) \<Rightarrow> Some (Some e, w3)
                      | (Inr lines, w3) \<Rightarrow> write_loop io lines 0 w3) of
                  None \<Rightarrow> None
                | Some (r, w4) \<Rightarrow>
                    (case exit_with io Html_file r w4 of
                       (r', w5) \<Rightarrow> Some (exit_with io Md_file r' w5)))))"

definition usage :: string where
  "usage = ''Usage: ./markdown2html.py README.md README.html'' @ [newline]"

definition main :: "'w os \<Rightarrow> string list \<Rightarrow> 'w \<Rightarrow> (outcome \<times> 'w) option" where
  "main io argv w =
     (if length argv < 3 then Some (Exit 1 usage, w)
      else (let input_file = argv ! 1; output_file = argv ! 2
            in if \<not> path_exists io input_file w
               then Some (Exit 1 (''Missing '' @ input_file @ [newline]), w)
               else (case convert_markdown_to_html io input_file output_file w of
                       None \<Rightarrow> None
                     | Some (Some e, w') \<Rightarrow> Some (Uncaught e, w')
                     | Some (None, w') \<Rightarrow> Some (Exit 0 [], w'))))"

section \<open>Notions used in the statements\<close>

text \<open>\<open>occurs p s\<close>: the string \<open>p\<close> occurs in \<open>s\<close> (Python's \<open>p in s\<close>).\<close>

fun occurs :: "string \<Rightarrow> string \<Rightarrow> bool" where
  "occurs p [] = (p = [])"
| "occurs p (c # s) = (startswith (c # s) p \<or> occurs p s)"

text \<open>\<open>free_of ops s\<close>: none of the strings \<open>ops\<close> occurs in \<open>s\<close>.\<close>

definition free_of :: "string list \<Rightarrow> string \<Rightarrow> bool" where
  "free_of ops s = list_all (\<lambda>op. \<not> occurs op s) ops"

text \<open>A world in which every path exists and is a directory: \<open>open\<close> raises.\<close>

definition directory_os :: "unit os" where
  "directory_os =
     OS (\<lambda>p w. True)
        (\<lambda>h p w. (Some IsADirectoryError, w))
        (\<lambda>w. (Inr [], w))
        (\<lambda>s w. (None, w))
        (\<lambda>h w. (None, w))"

text \<open>
  A world with one input file \<open>in.md\<close> of the given lines, where nothing raises; the state
  is the text written so far.
\<close>

definition memory_os :: "string list \<Rightarrow> (string list) os" where
  "memory_os ls =
     OS (\<lambda>p w. p = ''in.md'')
        (\<lambda>h p w. (None, w))
        (\<lambda>w. (Inr ls, w))
        (\<lambda>s w. (None, w @ [s]))
        (\<lambda>h w. (None, w))"

text \<open>The list item made from a line: what follows the two-character marker, trimmed and
  transformed, between \<open><li>\<close> and \<open></li>\<close>.\<close>

definition list_item :: "string \<Rightarrow> string" where
  "list_item line = ''<li>'' @ parse_inline_markdown (strip (drop 2 line)) @ ''</li>''"

text \<open>The longest run of lines at the head of \<open>ls\<close> that start with \<open>marker\<close>.\<close>

definition marked_run :: "string \<Rightarrow> string list \<Rightarrow> string list" where
  "marked_run marker ls = takeWhile (\<lambda>l. startswith l marker) ls"

text \<open>A line that is not blank.\<close>

definition nonblank :: "string \<Rightarrow> bool" where
  "nonblank line = (strip line \<noteq> [])"

section \<open>The loops of the block functions\<close>

lemma ul_loop_eq:
  "ul_loop lines acc = acc @ map list_item (takeWhile (\<lambda>l. startswith l ''- '') lines)"
  by (induction lines arbitrary: acc) (simp_all add: list_item_def Let_def)

lemma ol_loop_eq:
  "ol_loop lines acc = acc @ map list_item (takeWhile (\<lambda>l. startswith l ''* '') lines)"
  by (induction lines arbitrary: acc) (simp_all add: list_item_def Let_def)

lemma para_loop_length:
  "length (para_loop i lines acc) =
     length acc + 2 * length (takeWhile nonblank lines)
       - (if i = 0 \<and> lines \<noteq> [] \<and> nonblank (hd lines) then 1 else 0)"
proof (induction lines arbitrary: i acc)
  case Nil
  then show ?case by simp
next
  case (Cons l ls)
  show ?case
  proof (cases "strip l = []")
    case True
    then show ?thesis by (simp add: nonblank_def)
  next
    case False
    then show ?thesis
      using Cons.IH [of "i + 1"] by (simp add: Let_def nonblank_def)
  qed
qed

lemma parse_unordered_list_count:
  assumes "parse_unordered_list lines = Some (h, k)"
  shows "k = length (takeWhile (\<lambda>l. startswith l ''- '') lines) \<and> 1 \<le> k"
  using assms
  by (cases lines) (auto simp: parse_unordered_list_def ul_loop_eq Let_def split: if_splits)

lemma parse_ordered_list_count:
  assumes "parse_ordered_list lines = Some (h, k)"
  shows "k = length (takeWhile (\<lambda>l. startswith l ''* '') lines) \<and> 1 \<le> k"
  using assms
  by (cases lines) (auto simp: parse_ordered_list_def ol_loop_eq Let_def split: if_splits)

lemma parse_paragraph_count:
  assumes "parse_paragraph lines = Some (h, k)"
  shows "k = 2 * length (takeWhile nonblank lines) - 1 \<and> 1 \<le> k"
  using assms
  by (cases lines)
    (auto simp: parse_paragraph_def para_loop_length Let_def nonblank_def split: if_splits)

lemma loop_body_advances: "i < fst (loop_body lines i out)"
  by (auto simp: loop_body_def Let_def split: option.splits
      dest: parse_unordered_list_count parse_ordered_list_count parse_paragraph_count)

lemma scan_loop_total: "\<exists>r. scan_loop lines i out = Some r"
proof (induction "length lines - i" arbitrary: i out rule: less_induct)
  case less
  show ?case
  proof (cases "i < length lines")
    case True
    let ?i = "fst (loop_body lines i out)"
    have "length lines - ?i < length lines - i"
      using True loop_body_advances [of i lines out] by arith
    from less [OF this] show ?thesis
      using True by (subst scan_loop.simps) simp
  next
    case False
    then show ?thesis by (subst scan_loop.simps) simp
  qed
qed

section \<open>The substitution of a span\<close>

lemma startswith_append:
  "length p \<le> length a \<Longrightarrow> startswith (a @ b) p = startswith a p"
  by (simp add: startswith_def)

lemma startswith_self [simp]: "startswith (p @ s) p"
  by (simp add: startswith_def)

lemma re_sub_no_open: "\<not> occurs op t \<Longrightarrow> re_sub op cl f t = t"
  by (induction t) auto

lemma startswith_butlast:
  assumes "p \<noteq> []" "a \<noteq> []"
  shows "startswith ((a @ p) @ b) p = startswith (a @ butlast p) p"
proof -
  have e: "(a @ p) @ b = (a @ butlast p) @ ([last p] @ b)"
    using assms(1) by simp
  have l: "length p \<le> length (a @ butlast p)"
    using assms by (cases a) simp_all
  show ?thesis
    by (simp only: e startswith_append [OF l])
qed

lemma find_close_first:
  assumes "newline \<notin> set x" "cl \<noteq> []" "\<not> occurs cl (x @ butlast cl)"
  shows "find_close cl (x @ cl @ post) = Some (x, post)"
  using assms
proof (induction x)
  case Nil
  then show ?case by (cases cl) (simp_all add: startswith_def)
next
  case (Cons c x)
  have "startswith (((c # x) @ cl) @ post) cl = startswith ((c # x) @ butlast cl) cl"
    using startswith_butlast [OF Cons.prems(2), of "c # x" post] by blast
  with Cons show ?case by auto
qed

lemma re_sub_skip:
  assumes "op \<noteq> []" "\<not> occurs op (pre @ butlast op)"
  shows "re_sub op cl f (pre @ op @ more) = pre @ re_sub op cl f (op @ more)"
  using assms
proof (induction pre)
  case Nil
  then show ?case by simp
next
  case (Cons c pre)
  have "startswith (((c # pre) @ op) @ more) op = startswith ((c # pre) @ butlast op) op"
    using startswith_butlast [OF Cons.prems(1), of "c # pre" more] by blast
  with Cons show ?case by auto
qed

lemma re_sub_at_open:
  assumes "op \<noteq> []" "find_close cl s = Some (x, rest)"
  shows "re_sub op cl f (op @ s) = f x @ re_sub op cl f rest"
proof -
  obtain c t where ct: "op @ s = c # t" using assms(1) by (cases op) auto
  have s1: "startswith (c # t) op" unfolding ct [symmetric] by simp
  have s2: "drop (length op) (c # t) = s" unfolding ct [symmetric] by simp
  have "re_sub op cl f (c # t) = f x @ re_sub op cl f rest"
    by (simp only: re_sub.simps s1 s2 assms option.case prod.case if_True simp_thms)
  with ct show ?thesis by simp
qed

lemma re_sub_span:
  assumes "op \<noteq> []" "cl \<noteq> []" "newline \<notin> set x"
    "\<not> occurs op (pre @ butlast op)" "\<not> occurs cl (x @ butlast cl)"
  shows "re_sub op cl f (pre @ op @ x @ cl @ post) = pre @ f x @ re_sub op cl f post"
  using re_sub_skip [OF assms(1,4)] re_sub_at_open [OF assms(1) find_close_first [OF assms(3,2,5)]]
  by simp

section \<open>The passes of the inline transformer\<close>

lemma startswith_pair: "startswith (d # s) [a, b] = (d = a \<and> s \<noteq> [] \<and> hd s = b)"
  by (cases s) (auto simp: startswith_def)

lemma occurs_pair_Cons:
  "occurs [c, c] (d # s) = ((d = c \<and> s \<noteq> [] \<and> hd s = c) \<or> occurs [c, c] s)"
  by (simp add: startswith_pair)

lemma occurs_pair_append:
  "occurs [c, c] (a @ b)
   = (occurs [c, c] a \<or> occurs [c, c] b \<or> (a \<noteq> [] \<and> last a = c \<and> b \<noteq> [] \<and> hd b = c))"
proof (induction a)
  case Nil
  then show ?case by simp
next
  case (Cons d a)
  show ?case
  proof (cases "a = []")
    case True
    then show ?thesis by (auto simp: startswith_pair)
  next
    case False
    then show ?thesis
      using Cons.IH by (auto simp: startswith_pair)
  qed
qed

lemma re_sub_skip_pair:
  assumes "\<not> occurs [c, c] p" "p = [] \<or> last p \<noteq> c \<or> t = [] \<or> hd t \<noteq> c"
  shows "re_sub [c, c] cl f (p @ t) = p @ re_sub [c, c] cl f t"
  using assms
proof (induction p)
  case Nil
  then show ?case by simp
next
  case (Cons d p)
  have n: "\<not> startswith (d # p @ t) [c, c]"
    using Cons.prems by (cases "p = []") (auto simp: startswith_pair)
  have o: "\<not> occurs [c, c] p"
    using Cons.prems(1) by simp
  have b: "p = [] \<or> last p \<noteq> c \<or> t = [] \<or> hd t \<noteq> c"
    using Cons.prems(2) by (cases "p = []") auto
  have "re_sub [c, c] cl f (p @ t) = p @ re_sub [c, c] cl f t"
    using Cons.IH [OF o b] .
  with n show ?case by simp
qed

lemma inline_unfold:
  "parse_inline_markdown t = sub_remove_c (sub_md5 (sub_em (sub_bold t)))"
  by (simp add: parse_inline_markdown_def)

lemma sub_bold_span:
  assumes "newline \<notin> set x" "\<not> occurs ''**'' (pre @ ''*'')" "\<not> occurs ''**'' (x @ ''*'')"
  shows "sub_bold (pre @ ''**'' @ x @ ''**'' @ post) = pre @ ''<b>'' @ x @ ''</b>'' @ sub_bold post"
  unfolding sub_bold_def
  using re_sub_span [of "''**''" "''**''" x pre "\<lambda>x. ''<b>'' @ x @ ''</b>''" post] assms
  by simp

lemma sub_em_span:
  assumes "newline \<notin> set x" "\<not> occurs ''__'' (pre @ ''_'')" "\<not> occurs ''__'' (x @ ''_'')"
  shows "sub_em (pre @ ''__'' @ x @ ''__'' @ post) = pre @ ''<em>'' @ x @ ''</em>'' @ sub_em post"
  unfolding sub_em_def
  using re_sub_span [of "''__''" "''__''" x pre "\<lambda>x. ''<em>'' @ x @ ''</em>''" post] assms
  by simp

lemma sub_md5_span:
  assumes "newline \<notin> set x" "\<not> occurs ''[['' (pre @ ''['')" "\<not> occurs '']]'' (x @ '']'')"
  shows "sub_md5 (pre @ ''[['' @ x @ '']]'' @ post) = pre @ md5_hash x @ sub_md5 post"
  unfolding sub_md5_def
  using re_sub_span [of "''[[''" "'']]''" x pre md5_hash post] assms
  by simp

lemma sub_remove_c_span:
  assumes "newline \<notin> set x" "\<not> occurs ''(('' (pre @ ''('')" "\<not> occurs ''))'' (x @ '')'')"
  shows "sub_remove_c (pre @ ''(('' @ x @ ''))'' @ post) = pre @ remove_c x @ sub_remove_c post"
  unfolding sub_remove_c_def
  using re_sub_span [of "''((''" "''))''" x pre remove_c post] assms
  by simp

lemma bold_then_rest:
  assumes "newline \<notin> set x" "\<not> occurs ''**'' (pre @ ''*'')" "\<not> occurs ''**'' (x @ ''*'')"
  shows "parse_inline_markdown (pre @ ''**'' @ x @ ''**'' @ post)
         = sub_remove_c (sub_md5 (sub_em (pre @ ''<b>'' @ x @ ''</b>'' @ sub_bold post)))"
  unfolding inline_unfold sub_bold_span [OF assms] ..

lemma pass_skip:
  assumes "\<not> occurs [c, c] p" "p \<noteq> []" "last p \<noteq> c"
  shows "re_sub [c, c] cl f (p @ t) = p @ re_sub [c, c] cl f t"
  by (rule re_sub_skip_pair) (use assms in auto)

lemma bold_free:
  assumes "newline \<notin> set x" "\<not> occurs ''**'' (pre @ ''*'')" "\<not> occurs ''**'' (x @ ''*'')"
    "free_of [''__'', ''[['', ''((''] pre" "free_of [''__'', ''[['', ''((''] x"
  shows "parse_inline_markdown (pre @ ''**'' @ x @ ''**'' @ post)
         = pre @ ''<b>'' @ x @ ''</b>'' @ parse_inline_markdown post"
proof -
  let ?p = "pre @ ''<b>'' @ x @ ''</b>''"
  have n: "?p \<noteq> []" by simp
  have l: "last ?p = CHR ''>''" by simp
  have f: "\<not> occurs ''__'' ?p" "\<not> occurs ''[['' ?p" "\<not> occurs ''(('' ?p"
    using assms(4,5) by (auto simp: free_of_def occurs_pair_append startswith_pair)
  have e: "sub_em (?p @ sub_bold post) = ?p @ sub_em (sub_bold post)"
    unfolding sub_em_def by (rule pass_skip [OF f(1) n]) (simp add: l)
  have m: "sub_md5 (?p @ sub_em (sub_bold post)) = ?p @ sub_md5 (sub_em (sub_bold post))"
    unfolding sub_md5_def by (rule pass_skip [OF f(2) n]) (simp add: l)
  have r: "sub_remove_c (?p @ sub_md5 (sub_em (sub_bold post)))
           = ?p @ sub_remove_c (sub_md5 (sub_em (sub_bold post)))"
    unfolding sub_remove_c_def by (rule pass_skip [OF f(3) n]) (simp add: l)
  have "parse_inline_markdown (pre @ ''**'' @ x @ ''**'' @ post) = ?p @ parse_inline_markdown post"
    using bold_then_rest [OF assms(1,2,3), of post] e m r
    by (simp only: inline_unfold append_assoc)
  then show ?thesis by simp
qed

lemma em_then_rest:
  assumes "newline \<notin> set x" "\<not> occurs ''__'' (pre @ ''_'')" "\<not> occurs ''__'' (x @ ''_'')"
    "free_of [''**''] pre" "free_of [''**''] x"
  shows "parse_inline_markdown (pre @ ''__'' @ x @ ''__'' @ post)
         = sub_remove_c (sub_md5 (pre @ ''<em>'' @ x @ ''</em>'' @ sub_em (sub_bold post)))"
proof -
  let ?q = "pre @ ''__'' @ x @ ''__''"
  have n: "?q \<noteq> []" by simp
  have l: "last ?q = CHR ''_''" by simp
  have f: "\<not> occurs ''**'' ?q"
    using assms(4,5) by (auto simp: free_of_def occurs_pair_append startswith_pair)
  have b: "sub_bold (?q @ post) = ?q @ sub_bold post"
    unfolding sub_bold_def by (rule pass_skip [OF f n]) (simp add: l)
  have "sub_em (sub_bold (pre @ ''__'' @ x @ ''__'' @ post))
        = pre @ ''<em>'' @ x @ ''</em>'' @ sub_em (sub_bold post)"
    using b sub_em_span [OF assms(1,2,3), of "sub_bold post"] by simp
  then show ?thesis
    by (simp only: inline_unfold)
qed

lemma em_free:
  assumes "newline \<notin> set x" "\<not> occurs ''__'' (pre @ ''_'')" "\<not> occurs ''__'' (x @ ''_'')"
    "free_of [''**'', ''[['', ''((''] pre" "free_of [''**'', ''[['', ''((''] x"
  shows "parse_inline_markdown (pre @ ''__'' @ x @ ''__'' @ post)
         = pre @ ''<em>'' @ x @ ''</em>'' @ parse_inline_markdown post"
proof -
  let ?p = "pre @ ''<em>'' @ x @ ''</em>''"
  have n: "?p \<noteq> []" by simp
  have l: "last ?p = CHR ''>''" by simp
  have s: "free_of [''**''] pre" "free_of [''**''] x"
    using assms(4,5) by (simp_all add: free_of_def)
  have f: "\<not> occurs ''[['' ?p" "\<not> occurs ''(('' ?p"
    using assms(4,5) by (auto simp: free_of_def occurs_pair_append startswith_pair)
  have m: "sub_md5 (?p @ sub_em (sub_bold post)) = ?p @ sub_md5 (sub_em (sub_bold post))"
    unfolding sub_md5_def by (rule pass_skip [OF f(1) n]) (simp add: l)
  have r: "sub_remove_c (?p @ sub_md5 (sub_em (sub_bold post)))
           = ?p @ sub_remove_c (sub_md5 (sub_em (sub_bold post)))"
    unfolding sub_remove_c_def by (rule pass_skip [OF f(2) n]) (simp add: l)
  have "parse_inline_markdown (pre @ ''__'' @ x @ ''__'' @ post) = ?p @ parse_inline_markdown post"
    using em_then_rest [OF assms(1,2,3) s, of post] m r
    by (simp only: inline_unfold append_assoc)
  then show ?thesis by simp
qed

section \<open>Bold and emphasis\<close>

text \<open>
  Claim C4, as the code has it.  In a text \<open>pre ** x ** post\<close> where \<open>x\<close> has no line
  feed, no \<open>**\<close> starts before the opening marker and the closing marker is the first
  \<open>**\<close> after it (the lazy match), the first pass replaces the span by \<open><b>x</b>\<close>, keeps
  \<open>pre\<close> and goes on in the same way through \<open>post\<close>, so every occurrence in the line is
  replaced; the second pass does the same for \<open>__x__\<close> with the other tag, \<open><em>x</em>\<close>.
  The later passes are then applied to the result, the content of the span included: the
  transformer gives the three later passes of the text with \<open><b>x</b>\<close> in it, and for
  the underscores, where no \<open>**\<close> occurs in \<open>pre\<close> and \<open>x\<close>, the two later passes of the
  text with \<open><em>x</em>\<close> in it.  Where none of the other three opening sequences occurs in
  \<open>pre\<close> and in \<open>x\<close>, the transformer leaves \<open>pre\<close> and \<open>x\<close> as they are: it gives
  \<open>pre\<close>, the span between its tags, and the transformed \<open>post\<close>.
\<close>

theorem inline_bold_em:
  assumes "newline \<notin> set x"
  shows
   "(\<not> occurs ''**'' (pre @ ''*'') \<and> \<not> occurs ''**'' (x @ ''*'') \<longrightarrow>
       sub_bold (pre @ ''**'' @ x @ ''**'' @ post) = pre @ ''<b>'' @ x @ ''</b>'' @ sub_bold post)
    \<and> (\<not> occurs ''__'' (pre @ ''_'') \<and> \<not> occurs ''__'' (x @ ''_'') \<longrightarrow>
       sub_em (pre @ ''__'' @ x @ ''__'' @ post) = pre @ ''<em>'' @ x @ ''</em>'' @ sub_em post)
    \<and> (\<not> occurs ''**'' (pre @ ''*'') \<and> \<not> occurs ''**'' (x @ ''*'') \<longrightarrow>
       parse_inline_markdown (pre @ ''**'' @ x @ ''**'' @ post)
         = sub_remove_c (sub_md5 (sub_em (pre @ ''<b>'' @ x @ ''</b>'' @ sub_bold post))))
    \<and> (\<not> occurs ''__'' (pre @ ''_'') \<and> \<not> occurs ''__'' (x @ ''_'')
        \<and> free_of [''**''] pre \<and> free_of [''**''] x \<longrightarrow>
       parse_inline_markdown (pre @ ''__'' @ x @ ''__'' @ post)
         = sub_remove_c (sub_md5 (pre @ ''<em>'' @ x @ ''</em>'' @ sub_em (sub_bold post))))
    \<and> (\<not> occurs ''**'' (pre @ ''*'') \<and> \<not> occurs ''**'' (x @ ''*'')
        \<and> free_of [''__'', ''[['', ''((''] pre \<and> free_of [''__'', ''[['', ''((''] x \<longrightarrow>
       parse_inline_markdown (pre @ ''**'' @ x @ ''**'' @ post)
         = pre @ ''<b>'' @ x @ ''</b>'' @ parse_inline_markdown post)
    \<and> (\<not> occurs ''__'' (pre @ ''_'') \<and> \<not> occurs ''__'' (x @ ''_'')
        \<and> free_of [''**'', ''[['', ''((''] pre \<and> free_of [''**'', ''[['', ''((''] x \<longrightarrow>
       parse_inline_markdown (pre @ ''__'' @ x @ ''__'' @ post)
         = pre @ ''<em>'' @ x @ ''</em>'' @ parse_inline_markdown post)"
  using sub_bold_span [OF assms, of pre post] sub_em_span [OF assms, of pre post]
    bold_then_rest [OF assms, of pre post] em_then_rest [OF assms, of pre post]
    bold_free [OF assms, of pre post] em_free [OF assms, of pre post]
  by blast

theorem inline_bold_em_witness:
  "newline \<notin> set ''b*d''
   \<and> \<not> occurs ''**'' (''f(x) '' @ ''*'') \<and> \<not> occurs ''**'' (''b*d'' @ ''*'')
   \<and> free_of [''__'', ''[['', ''((''] ''f(x) '' \<and> free_of [''__'', ''[['', ''((''] ''b*d''
   \<and> parse_inline_markdown ''f(x) **b*d** z'' = ''f(x) <b>b*d</b> z''
   \<and> sub_bold ''f(x) **b*d** z'' = ''f(x) <b>b*d</b> z''
   \<and> newline \<notin> set ''e_m''
   \<and> \<not> occurs ''__'' (''f(x) '' @ ''_'') \<and> \<not> occurs ''__'' (''e_m'' @ ''_'')
   \<and> free_of [''**'', ''[['', ''((''] ''f(x) '' \<and> free_of [''**'', ''[['', ''((''] ''e_m''
   \<and> parse_inline_markdown ''f(x) __e_m__ z'' = ''f(x) <em>e_m</em> z''
   \<and> sub_em ''f(x) __e_m__ z'' = ''f(x) <em>e_m</em> z''"
proof -
  have h1: "newline \<notin> set ''b*d''" by (simp add: newline_def)
  have o1: "\<not> occurs ''**'' (''f(x) '' @ ''*'') \<and> \<not> occurs ''**'' (''b*d'' @ ''*'')
       \<and> free_of [''__'', ''[['', ''((''] ''f(x) '' \<and> free_of [''__'', ''[['', ''((''] ''b*d''"
    by (simp add: startswith_def free_of_def)
  have h2: "newline \<notin> set ''e_m''" by (simp add: newline_def)
  have o2: "\<not> occurs ''__'' (''f(x) '' @ ''_'') \<and> \<not> occurs ''__'' (''e_m'' @ ''_'')
       \<and> free_of [''**'', ''[['', ''((''] ''f(x) '' \<and> free_of [''**'', ''[['', ''((''] ''e_m''"
    by (simp add: startswith_def free_of_def)
  have r: "sub_bold '' z'' = '' z'' \<and> sub_em '' z'' = '' z'' \<and> parse_inline_markdown '' z'' = '' z''"
    by code_simp
  have a: "parse_inline_markdown (''f(x) '' @ ''**'' @ ''b*d'' @ ''**'' @ '' z'')
             = ''f(x) '' @ ''<b>'' @ ''b*d'' @ ''</b>'' @ parse_inline_markdown '' z''
           \<and> sub_bold (''f(x) '' @ ''**'' @ ''b*d'' @ ''**'' @ '' z'')
             = ''f(x) '' @ ''<b>'' @ ''b*d'' @ ''</b>'' @ sub_bold '' z''"
    using inline_bold_em [OF h1, of "''f(x) ''" "'' z''"] o1 by blast
  have b: "parse_inline_markdown (''f(x) '' @ ''__'' @ ''e_m'' @ ''__'' @ '' z'')
             = ''f(x) '' @ ''<em>'' @ ''e_m'' @ ''</em>'' @ parse_inline_markdown '' z''
           \<and> sub_em (''f(x) '' @ ''__'' @ ''e_m'' @ ''__'' @ '' z'')
             = ''f(x) '' @ ''<em>'' @ ''e_m'' @ ''</em>'' @ sub_em '' z''"
    using inline_bold_em [OF h2, of "''f(x) ''" "'' z''"] o2 by blast
  show ?thesis
    using h1 o1 h2 o2 a b r by simp
qed

text \<open>
  Claim C4 as stated has \<open><b>X</b>\<close> for every content \<open>X\<close>.  The content \<open>((c))\<close> is
  changed by the fourth pass: \<open>**((c))**\<close> becomes \<open><b></b>\<close>.
\<close>

theorem bold_content_is_transformed:
  "parse_inline_markdown ''**((c))**'' = ''<b></b>''
   \<and> parse_inline_markdown ''**((c))**'' \<noteq> ''<b>((c))</b>''"
  by code_simp

section \<open>The digest and its characters\<close>

lemma hex_digit_in: "hex_digit n \<in> set ''0123456789abcdef''"
  unfolding hex_digit_def by (rule nth_mem) simp

lemma hexdigest_length: "length (hexdigest bs) = 2 * length bs"
  by (induction bs) (simp_all add: hexdigest_def hex_byte_def)

lemma hex_byte_set:
  assumes "c \<in> set (hex_byte b)"
  shows "c \<in> set ''0123456789abcdef''"
proof -
  from assms have "c = hex_digit (unat b div 16) \<or> c = hex_digit (unat b mod 16)"
    by (simp add: hex_byte_def)
  then show ?thesis
    using hex_digit_in by blast
qed

lemma hexdigest_set: "set (hexdigest bs) \<subseteq> set ''0123456789abcdef''"
proof
  fix c
  assume "c \<in> set (hexdigest bs)"
  then obtain b where "c \<in> set (hex_byte b)"
    by (auto simp: hexdigest_def)
  then show "c \<in> set ''0123456789abcdef''"
    by (rule hex_byte_set)
qed

lemma md5_digest_length: "length (md5_digest bs) = 16"
  by (cases "foldl md5_block md5_init (chunks 64 (md5_pad bs))")
    (simp add: md5_digest_def le_bytes_def)

lemma md5_hash_hex: "length (md5_hash x) = 32 \<and> set (md5_hash x) \<subseteq> set ''0123456789abcdef''"
  by (simp add: md5_hash_def hexdigest_length md5_digest_length hexdigest_set del: set_simps)

lemma not_in_set_occurs: "c \<notin> set s \<Longrightarrow> \<not> occurs [c, c] s"
  by (induction s) (auto simp: startswith_pair)

lemma md5_hash_no_paren: "CHR ''('' \<notin> set (md5_hash x)"
proof
  assume "CHR ''('' \<in> set (md5_hash x)"
  then have "CHR ''('' \<in> set ''0123456789abcdef''"
    using md5_hash_hex [of x] by blast
  then show False by simp
qed

lemma md5_hash_nonempty: "md5_hash x \<noteq> []"
  using md5_hash_hex [of x] by auto

lemma encode_ascii:
  assumes "\<forall>c \<in> set x. (of_char c :: nat) < 128"
  shows "encode x = map (\<lambda>c. of_nat (of_char c)) x"
  using assms by (induction x) (simp_all add: encode_def)

lemma md5_abc: "md5_hash ''abc'' = ''900150983cd24fb0d6963f7d28e17f72''"
  by code_simp

lemma md5_empty: "md5_hash [] = ''d41d8cd98f00b204e9800998ecf8427e''"
  by code_simp

lemma md5_two_bytes: "md5_hash [CHR 0x85] = ''f8411b1dce54330f55b86127c85b200f''"
  by code_simp

lemma md5_two_blocks:
  "md5_hash (replicate 56 (CHR ''a'')) = ''3b0c8ac703f828b04c6c197006d17218''"
  by code_simp

lemma md5_then_rest:
  assumes "newline \<notin> set x" "\<not> occurs ''[['' (pre @ ''['')" "\<not> occurs '']]'' (x @ '']'')"
    "free_of [''**'', ''__''] pre" "free_of [''**'', ''__''] x"
  shows "parse_inline_markdown (pre @ ''[['' @ x @ '']]'' @ post)
         = sub_remove_c (pre @ md5_hash x @ sub_md5 (sub_em (sub_bold post)))"
proof -
  let ?q = "pre @ ''[['' @ x @ '']]''"
  have n: "?q \<noteq> []" by simp
  have l: "last ?q = CHR '']''" by simp
  have f: "\<not> occurs ''**'' ?q" "\<not> occurs ''__'' ?q"
    using assms(4,5) by (auto simp: free_of_def occurs_pair_append startswith_pair)
  have b: "sub_bold (?q @ post) = ?q @ sub_bold post"
    unfolding sub_bold_def by (rule pass_skip [OF f(1) n]) (simp add: l)
  have e: "sub_em (?q @ sub_bold post) = ?q @ sub_em (sub_bold post)"
    unfolding sub_em_def by (rule pass_skip [OF f(2) n]) (simp add: l)
  have "sub_md5 (sub_em (sub_bold (pre @ ''[['' @ x @ '']]'' @ post)))
        = pre @ md5_hash x @ sub_md5 (sub_em (sub_bold post))"
    using b e sub_md5_span [OF assms(1,2,3), of "sub_em (sub_bold post)"] by simp
  then show ?thesis
    by (simp only: inline_unfold)
qed

lemma md5_free:
  assumes "newline \<notin> set x" "\<not> occurs ''[['' (pre @ ''['')" "\<not> occurs '']]'' (x @ '']'')"
    "free_of [''**'', ''__'', ''((''] pre" "free_of [''**'', ''__''] x"
  shows "parse_inline_markdown (pre @ ''[['' @ x @ '']]'' @ post)
         = pre @ md5_hash x @ parse_inline_markdown post"
proof -
  let ?p = "pre @ md5_hash x"
  have s: "free_of [''**'', ''__''] pre"
    using assms(4) by (simp add: free_of_def)
  have n: "?p \<noteq> []" using md5_hash_nonempty by simp
  have l: "last ?p \<noteq> CHR ''(''"
  proof -
    have "last (md5_hash x) \<in> set (md5_hash x)"
      by (rule last_in_set) (rule md5_hash_nonempty)
    then have "last (md5_hash x) \<noteq> CHR ''(''"
      using md5_hash_no_paren [of x] by metis
    then show ?thesis
      using md5_hash_nonempty [of x] by simp
  qed
  have h: "hd (md5_hash x) \<noteq> CHR ''(''"
  proof -
    have "hd (md5_hash x) \<in> set (md5_hash x)"
      by (rule hd_in_set) (rule md5_hash_nonempty)
    then show ?thesis
      using md5_hash_no_paren [of x] by metis
  qed
  have f: "\<not> occurs ''(('' ?p"
    using assms(4) not_in_set_occurs [OF md5_hash_no_paren [of x]] h
    by (auto simp: free_of_def occurs_pair_append)
  have r: "sub_remove_c (?p @ sub_md5 (sub_em (sub_bold post)))
           = ?p @ sub_remove_c (sub_md5 (sub_em (sub_bold post)))"
    unfolding sub_remove_c_def by (rule pass_skip [OF f n l])
  have "parse_inline_markdown (pre @ ''[['' @ x @ '']]'' @ post) = ?p @ parse_inline_markdown post"
    using md5_then_rest [OF assms(1,2,3) s assms(5), of post] r
    by (simp only: inline_unfold append_assoc)
  then show ?thesis by simp
qed

lemma remove_c_free:
  assumes "newline \<notin> set x" "\<not> occurs ''(('' (pre @ ''('')" "\<not> occurs ''))'' (x @ '')'')"
    "free_of [''**'', ''__'', ''[[''] pre" "free_of [''**'', ''__'', ''[[''] x"
  shows "parse_inline_markdown (pre @ ''(('' @ x @ ''))'' @ post)
         = pre @ remove_c x @ parse_inline_markdown post"
proof -
  let ?q = "pre @ ''(('' @ x @ ''))''"
  have n: "?q \<noteq> []" by simp
  have l: "last ?q = CHR '')''" by simp
  have f: "\<not> occurs ''**'' ?q" "\<not> occurs ''__'' ?q" "\<not> occurs ''[['' ?q"
    using assms(4,5) by (auto simp: free_of_def occurs_pair_append startswith_pair)
  have b: "sub_bold (?q @ post) = ?q @ sub_bold post"
    unfolding sub_bold_def by (rule pass_skip [OF f(1) n]) (simp add: l)
  have e: "sub_em (?q @ sub_bold post) = ?q @ sub_em (sub_bold post)"
    unfolding sub_em_def by (rule pass_skip [OF f(2) n]) (simp add: l)
  have m: "sub_md5 (?q @ sub_em (sub_bold post)) = ?q @ sub_md5 (sub_em (sub_bold post))"
    unfolding sub_md5_def by (rule pass_skip [OF f(3) n]) (simp add: l)
  have "sub_md5 (sub_em (sub_bold (pre @ ''(('' @ x @ ''))'' @ post)))
        = pre @ ''(('' @ x @ ''))'' @ sub_md5 (sub_em (sub_bold post))"
    using b e m by simp
  then show ?thesis
    using sub_remove_c_span [OF assms(1,2,3), of "sub_md5 (sub_em (sub_bold post))"]
    by (simp only: inline_unfold)
qed

lemma remove_c_filter: "remove_c x = filter (\<lambda>c. c \<noteq> CHR ''c'' \<and> c \<noteq> CHR ''C'') x"
  by (induction x) auto

section \<open>The digest span\<close>

text \<open>
  Claim C5, as the code has it.  In a text \<open>pre [[ x ]] post\<close> where \<open>x\<close> has no line
  feed, no \<open>[[\<close> starts before the opening marker and the closing marker is the first
  \<open>]]\<close> after it, the third pass replaces the span by the MD5 digest of \<open>x\<close>, keeps \<open>pre\<close>
  and goes on through \<open>post\<close>.  The pass works on what the first two passes have left and
  the fourth pass works on its result: where no \<open>**\<close> and no \<open>__\<close> occurs in \<open>pre\<close> and
  \<open>x\<close>, the transformer gives the fourth pass of \<open>pre\<close>, the digest of \<open>x\<close> and the rest;
  where moreover no \<open>((\<close> occurs in \<open>pre\<close>, it gives \<open>pre\<close>, the digest of \<open>x\<close> and the
  transformed \<open>post\<close>.  The digest is the MD5 digest of the UTF-8 bytes of \<open>x\<close>, one byte
  for a character below 128 and two bytes above, written as 32 digits or lowercase
  letters \<open>a\<close> to \<open>f\<close>; it is given here for the empty text, for \<open>abc\<close>, for a character
  of two bytes and for a text of two blocks.  The text \<open>[[abc]]\<close> becomes
  \<open>900150983cd24fb0d6963f7d28e17f72\<close>.
\<close>

theorem inline_md5_digest:
  assumes "newline \<notin> set x"
  shows
   "(\<not> occurs ''[['' (pre @ ''['') \<and> \<not> occurs '']]'' (x @ '']'') \<longrightarrow>
       sub_md5 (pre @ ''[['' @ x @ '']]'' @ post) = pre @ md5_hash x @ sub_md5 post)
    \<and> (\<not> occurs ''[['' (pre @ ''['') \<and> \<not> occurs '']]'' (x @ '']'')
        \<and> free_of [''**'', ''__''] pre \<and> free_of [''**'', ''__''] x \<longrightarrow>
       parse_inline_markdown (pre @ ''[['' @ x @ '']]'' @ post)
         = sub_remove_c (pre @ md5_hash x @ sub_md5 (sub_em (sub_bold post))))
    \<and> (\<not> occurs ''[['' (pre @ ''['') \<and> \<not> occurs '']]'' (x @ '']'')
        \<and> free_of [''**'', ''__'', ''((''] pre \<and> free_of [''**'', ''__''] x \<longrightarrow>
       parse_inline_markdown (pre @ ''[['' @ x @ '']]'' @ post)
         = pre @ md5_hash x @ parse_inline_markdown post)
    \<and> md5_hash x = hexdigest (md5_digest (encode x))
    \<and> length (md5_hash x) = 32
    \<and> set (md5_hash x) \<subseteq> set ''0123456789abcdef''
    \<and> ((\<forall>c \<in> set x. (of_char c :: nat) < 128) \<longrightarrow> encode x = map (\<lambda>c. of_nat (of_char c)) x)
    \<and> encode [CHR 0xE9] = [0xC3, 0xA9]
    \<and> md5_hash [] = ''d41d8cd98f00b204e9800998ecf8427e''
    \<and> md5_hash ''abc'' = ''900150983cd24fb0d6963f7d28e17f72''
    \<and> md5_hash [CHR 0x85] = ''f8411b1dce54330f55b86127c85b200f''
    \<and> md5_hash (replicate 56 (CHR ''a'')) = ''3b0c8ac703f828b04c6c197006d17218''
    \<and> parse_inline_markdown ''[[abc]]'' = ''900150983cd24fb0d6963f7d28e17f72''"
proof -
  have e: "parse_inline_markdown ''[[abc]]'' = ''900150983cd24fb0d6963f7d28e17f72''"
  proof -
    have "parse_inline_markdown ([] @ ''[['' @ ''abc'' @ '']]'' @ [])
          = [] @ md5_hash ''abc'' @ parse_inline_markdown []"
      by (rule md5_free) (simp_all add: newline_def free_of_def startswith_def)
    moreover have "parse_inline_markdown [] = []" by code_simp
    ultimately show ?thesis by (simp add: md5_abc)
  qed
  have u: "encode [CHR 0xE9] = [0xC3, 0xA9]" by code_simp
  have d: "md5_hash x = hexdigest (md5_digest (encode x))" by (simp add: md5_hash_def)
  have a: "(\<forall>c \<in> set x. (of_char c :: nat) < 128) \<longrightarrow> encode x = map (\<lambda>c. of_nat (of_char c)) x"
    using encode_ascii [of x] by blast
  show ?thesis
    using sub_md5_span [OF assms, of pre post] md5_then_rest [OF assms, of pre post]
      md5_free [OF assms, of pre post] md5_hash_hex [of x] e u d a
      md5_empty md5_abc md5_two_bytes md5_two_blocks
    by blast
qed

theorem inline_md5_digest_witness:
  "newline \<notin> set ''x(y''
   \<and> \<not> occurs ''[['' (''f(x) '' @ ''['') \<and> \<not> occurs '']]'' (''x(y'' @ '']'')
   \<and> free_of [''**'', ''__'', ''((''] ''f(x) '' \<and> free_of [''**'', ''__''] ''x(y''
   \<and> sub_md5 ''f(x) [[x(y]] z'' = ''f(x) '' @ md5_hash ''x(y'' @ '' z''
   \<and> parse_inline_markdown ''f(x) [[x(y]] z'' = ''f(x) '' @ md5_hash ''x(y'' @ '' z''
   \<and> length (md5_hash ''x(y'') = 32
   \<and> encode ''x(y'' = [0x78, 0x28, 0x79]"
proof -
  have h: "newline \<notin> set ''x(y''" by (simp add: newline_def)
  note t = inline_md5_digest [OF h, of "''f(x) ''" "'' z''"]
  have o: "\<not> occurs ''[['' (''f(x) '' @ ''['') \<and> \<not> occurs '']]'' (''x(y'' @ '']'')
       \<and> free_of [''**'', ''__'', ''((''] ''f(x) '' \<and> free_of [''**'', ''__''] ''x(y''"
    by (simp add: startswith_def free_of_def)
  have q: "\<forall>c \<in> set ''x(y''. (of_char c :: nat) < 128" by simp
  have r: "sub_md5 '' z'' = '' z'' \<and> parse_inline_markdown '' z'' = '' z''"
    by code_simp
  from t o have a: "sub_md5 (''f(x) '' @ ''[['' @ ''x(y'' @ '']]'' @ '' z'')
                    = ''f(x) '' @ md5_hash ''x(y'' @ sub_md5 '' z''"
    by blast
  from t o have b: "parse_inline_markdown (''f(x) '' @ ''[['' @ ''x(y'' @ '']]'' @ '' z'')
                    = ''f(x) '' @ md5_hash ''x(y'' @ parse_inline_markdown '' z''"
    by blast
  from t have c: "length (md5_hash ''x(y'') = 32" by blast
  from t q have "encode ''x(y'' = map (\<lambda>c. of_nat (of_char c)) ''x(y''" by blast
  then have d: "encode ''x(y'' = [0x78, 0x28, 0x79]" by simp
  have a': "sub_md5 ''f(x) [[x(y]] z'' = ''f(x) '' @ md5_hash ''x(y'' @ '' z''"
    using a r by simp
  have b': "parse_inline_markdown ''f(x) [[x(y]] z'' = ''f(x) '' @ md5_hash ''x(y'' @ '' z''"
    using b r by simp
  show ?thesis
    using h o a' b' c d by blast
qed

text \<open>
  Claim C5 as stated has the digest in the output for every text.  Inside a \<open>((\<close> span
  the fourth pass takes the \<open>c\<close> out of the digest: \<open>(([[abc]]))\<close> becomes a text of 31
  characters, the digest of \<open>abc\<close> without its \<open>c\<close>.
\<close>

theorem digest_is_stripped_inside_parentheses:
  "parse_inline_markdown ''(([[abc]]))'' = ''900150983d24fb0d6963f7d28e17f72''
   \<and> length ''900150983d24fb0d6963f7d28e17f72'' = 31"
  by code_simp

section \<open>The span without its c\<close>

text \<open>
  Claim C6, as the code has it.  In a text \<open>pre (( x )) post\<close> where \<open>x\<close> has no line
  feed, no \<open>((\<close> starts before the opening marker and the closing marker is the first
  \<open>))\<close> after it, the fourth pass replaces the span by \<open>x\<close> without its \<open>c\<close> and \<open>C\<close>,
  keeps \<open>pre\<close> and goes on through \<open>post\<close>; what is left of \<open>x\<close> is the list of its other
  characters in their order.  The pass works on what the first three passes have left of
  the text.  Where none of \<open>**\<close>, \<open>__\<close>, \<open>[[\<close> occurs in \<open>pre\<close> and in \<open>x\<close>, the
  transformer gives \<open>pre\<close>, then \<open>x\<close> without its \<open>c\<close> and \<open>C\<close>, then the transformed
  \<open>post\<close>.  The text \<open>((cocoa))\<close> becomes \<open>ooa\<close>.
\<close>

theorem inline_strip_c:
  assumes "newline \<notin> set x"
  shows
   "(\<not> occurs ''(('' (pre @ ''('') \<and> \<not> occurs ''))'' (x @ '')'') \<longrightarrow>
       sub_remove_c (pre @ ''(('' @ x @ ''))'' @ post) = pre @ remove_c x @ sub_remove_c post)
    \<and> parse_inline_markdown t = sub_remove_c (sub_md5 (sub_em (sub_bold t)))
    \<and> (\<not> occurs ''(('' (pre @ ''('') \<and> \<not> occurs ''))'' (x @ '')'')
        \<and> free_of [''**'', ''__'', ''[[''] pre \<and> free_of [''**'', ''__'', ''[[''] x \<longrightarrow>
       parse_inline_markdown (pre @ ''(('' @ x @ ''))'' @ post)
         = pre @ remove_c x @ parse_inline_markdown post)
    \<and> remove_c x = filter (\<lambda>c. c \<noteq> CHR ''c'' \<and> c \<noteq> CHR ''C'') x
    \<and> parse_inline_markdown ''((cocoa))'' = ''ooa''"
proof -
  have e: "parse_inline_markdown ''((cocoa))'' = ''ooa''" by code_simp
  show ?thesis
    using sub_remove_c_span [OF assms, of pre post] remove_c_free [OF assms, of pre post]
      inline_unfold [of t] remove_c_filter [of x] e
    by blast
qed

theorem inline_strip_c_witness:
  "newline \<notin> set ''Co*c_y[x''
   \<and> \<not> occurs ''(('' (''f(x) '' @ ''('') \<and> \<not> occurs ''))'' (''Co*c_y[x'' @ '')'')
   \<and> free_of [''**'', ''__'', ''[[''] ''f(x) '' \<and> free_of [''**'', ''__'', ''[[''] ''Co*c_y[x''
   \<and> sub_remove_c ''f(x) ((Co*c_y[x)) c'' = ''f(x) o*_y[x c''
   \<and> parse_inline_markdown ''f(x) ((Co*c_y[x)) c'' = ''f(x) o*_y[x c''"
proof -
  have h: "newline \<notin> set ''Co*c_y[x''" by (simp add: newline_def)
  note t = inline_strip_c [OF h, of "''f(x) ''" "'' c''"]
  have o: "\<not> occurs ''(('' (''f(x) '' @ ''('') \<and> \<not> occurs ''))'' (''Co*c_y[x'' @ '')'')
       \<and> free_of [''**'', ''__'', ''[[''] ''f(x) '' \<and> free_of [''**'', ''__'', ''[[''] ''Co*c_y[x''"
    by (simp add: startswith_def free_of_def)
  have r: "sub_remove_c '' c'' = '' c'' \<and> parse_inline_markdown '' c'' = '' c''
           \<and> remove_c ''Co*c_y[x'' = ''o*_y[x''"
    by code_simp
  from t o have a: "sub_remove_c (''f(x) '' @ ''(('' @ ''Co*c_y[x'' @ ''))'' @ '' c'')
                    = ''f(x) '' @ remove_c ''Co*c_y[x'' @ sub_remove_c '' c''"
    by blast
  from t o have b: "parse_inline_markdown (''f(x) '' @ ''(('' @ ''Co*c_y[x'' @ ''))'' @ '' c'')
                    = ''f(x) '' @ remove_c ''Co*c_y[x'' @ parse_inline_markdown '' c''"
    by blast
  have a': "sub_remove_c ''f(x) ((Co*c_y[x)) c'' = ''f(x) o*_y[x c''"
    using a r by simp
  have b': "parse_inline_markdown ''f(x) ((Co*c_y[x)) c'' = ''f(x) o*_y[x c''"
    using b r by simp
  show ?thesis
    using h o a' b' by blast
qed

text \<open>
  Claim C6 as stated keeps every character of \<open>X\<close> other than \<open>c\<close> and \<open>C\<close>.  The
  content \<open>__c__\<close> is changed by the second pass before the fourth sees it:
  \<open>((__c__))\<close> becomes \<open><em></em>\<close>, not the four underscores.
\<close>

theorem emphasis_inside_parentheses:
  "parse_inline_markdown ''((__c__))'' = ''<em></em>''
   \<and> remove_c ''__c__'' = ''____''"
  by code_simp

section \<open>Plain text\<close>

text \<open>
  Claim C8.  A text in which none of the opening sequences \<open>**\<close>, \<open>__\<close>, \<open>[[\<close>, \<open>((\<close>
  occurs is returned unchanged by the inline transformer.  The closing sequences \<open>]]\<close> and
  \<open>))\<close> need not be excluded: without an opening sequence they are kept as they are.
\<close>

theorem inline_identity_on_plain_text:
  assumes "\<not> occurs ''**'' x" "\<not> occurs ''__'' x" "\<not> occurs ''[['' x" "\<not> occurs ''(('' x"
  shows "parse_inline_markdown x = x"
  using assms
  by (simp add: parse_inline_markdown_def sub_bold_def sub_em_def sub_md5_def sub_remove_c_def
      re_sub_no_open)

theorem inline_identity_on_plain_text_witness:
  "\<not> occurs ''**'' ''2 * (a_b) [c]'' \<and> \<not> occurs ''__'' ''2 * (a_b) [c]''
   \<and> \<not> occurs ''[['' ''2 * (a_b) [c]'' \<and> \<not> occurs ''(('' ''2 * (a_b) [c]''
   \<and> parse_inline_markdown ''2 * (a_b) [c]'' = ''2 * (a_b) [c]''"
proof -
  have o: "\<not> occurs ''**'' ''2 * (a_b) [c]''" "\<not> occurs ''__'' ''2 * (a_b) [c]''"
    "\<not> occurs ''[['' ''2 * (a_b) [c]''" "\<not> occurs ''(('' ''2 * (a_b) [c]''"
    by (simp_all add: startswith_def)
  show ?thesis
    using o inline_identity_on_plain_text [OF o] by blast
qed

section \<open>Lines that start with a list marker\<close>

lemma strip_keeps_head:
  assumes "s \<noteq> []" "\<not> is_space (hd s)"
  shows "strip s \<noteq> [] \<and> hd (strip s) = hd s"
proof -
  obtain c t where s: "s = c # t" using assms(1) by (cases s) auto
  with assms(2) have c: "\<not> is_space c" by simp
  have "dropWhile is_space (rev t @ [c]) = dropWhile is_space (rev t) @ [c]"
    using c by (simp add: dropWhile_append)
  then have "strip s = c # rev (dropWhile is_space (rev t))"
    using s c by (simp add: strip_def)
  then show ?thesis using s by simp
qed

lemma parse_headings_no_hash:
  assumes "t = [] \<or> hd t \<noteq> CHR ''#''"
  shows "parse_headings t = None"
proof -
  have "takeWhile (\<lambda>c. c = CHR ''#'') t = []"
    using assms by (cases t) auto
  then show ?thesis
    by (simp add: parse_headings_def match_heading_def)
qed

lemma startswith_marker:
  assumes "startswith l [a, b]"
  shows "l \<noteq> [] \<and> hd l = a"
  using assms by (cases l) (auto simp: startswith_def)

lemma marker_not_heading:
  assumes "startswith l [a, b]" "\<not> is_space a" "a \<noteq> CHR ''#''"
  shows "parse_headings (strip l) = None"
  using strip_keeps_head [of l] startswith_marker [OF assms(1)] assms(2,3)
  by (intro parse_headings_no_hash) simp

lemma parse_unordered_list_eq:
  assumes "startswith l0 ''- ''"
  shows "parse_unordered_list (l0 # rest)
         = Some (join_nl ([''<ul>''] @ map list_item (marked_run ''- '' (l0 # rest)) @ [''</ul>'']),
                 length (marked_run ''- '' (l0 # rest)))"
proof -
  have l: "ul_loop (l0 # rest) [''<ul>''] = [''<ul>''] @ map list_item (marked_run ''- '' (l0 # rest))"
    by (simp only: ul_loop_eq marked_run_def)
  have n: "length (([''<ul>''] @ map list_item (marked_run ''- '' (l0 # rest))) @ [''</ul>'']) - 2
           = length (marked_run ''- '' (l0 # rest))"
    by simp
  show ?thesis
    unfolding parse_unordered_list_def list.case Let_def l n
    using assms by simp
qed

lemma parse_ordered_list_eq:
  assumes "startswith l0 ''* ''"
  shows "parse_ordered_list (l0 # rest)
         = Some (join_nl ([''<ol>''] @ map list_item (marked_run ''* '' (l0 # rest)) @ [''</ol>'']),
                 length (marked_run ''* '' (l0 # rest)))"
proof -
  have l: "ol_loop (l0 # rest) [''<ol>''] = [''<ol>''] @ map list_item (marked_run ''* '' (l0 # rest))"
    by (simp only: ol_loop_eq marked_run_def)
  have n: "length (([''<ol>''] @ map list_item (marked_run ''* '' (l0 # rest))) @ [''</ol>'']) - 2
           = length (marked_run ''* '' (l0 # rest))"
    by simp
  show ?thesis
    unfolding parse_ordered_list_def list.case Let_def l n
    using assms by simp
qed

lemma marked_run_props:
  "marked_run m ls = take (length (marked_run m ls)) ls
   \<and> (\<forall>l \<in> set (marked_run m ls). startswith l m)
   \<and> (length (marked_run m ls) < length ls \<longrightarrow> \<not> startswith (ls ! length (marked_run m ls)) m)"
proof -
  let ?P = "\<lambda>l. startswith l m"
  have a: "takeWhile ?P ls = take (length (takeWhile ?P ls)) ls"
    by (rule takeWhile_eq_take)
  have b: "\<forall>l \<in> set (takeWhile ?P ls). startswith l m"
    by (auto dest: set_takeWhileD)
  have c: "length (takeWhile ?P ls) < length ls \<longrightarrow> \<not> startswith (ls ! length (takeWhile ?P ls)) m"
    using nth_length_takeWhile [of ?P ls] by blast
  show ?thesis unfolding marked_run_def using a b c by blast
qed

lemma loop_body_unordered:
  assumes "i < length lines" "startswith (lines ! i) ''- ''"
  shows "loop_body lines i out
         = (i + length (marked_run ''- '' (drop i lines)),
            out @ [join_nl ([''<ul>''] @ map list_item (marked_run ''- '' (drop i lines)) @ [''</ul>''])])"
proof -
  have d: "drop i lines = lines ! i # drop (Suc i) lines"
    using assms(1) by (simp add: Cons_nth_drop_Suc)
  have h: "parse_headings (strip (lines ! i)) = None"
    by (rule marker_not_heading [OF assms(2)]) (simp_all add: is_space_def)
  show ?thesis
    unfolding loop_body_def Let_def h
    using parse_unordered_list_eq [OF assms(2), of "drop (Suc i) lines"]
    by (simp add: d [symmetric])
qed

lemma loop_body_ordered:
  assumes "i < length lines" "startswith (lines ! i) ''* ''"
  shows "loop_body lines i out
         = (i + length (marked_run ''* '' (drop i lines)),
            out @ [join_nl ([''<ol>''] @ map list_item (marked_run ''* '' (drop i lines)) @ [''</ol>''])])"
proof -
  have d: "drop i lines = lines ! i # drop (Suc i) lines"
    using assms(1) by (simp add: Cons_nth_drop_Suc)
  have h: "parse_headings (strip (lines ! i)) = None"
    by (rule marker_not_heading [OF assms(2)]) (simp_all add: is_space_def)
  have n: "\<not> startswith (lines ! i) ''- ''"
    using assms(2) by (auto simp: startswith_def)
  have u: "parse_unordered_list (drop i lines) = None"
    using n by (subst d) (simp add: parse_unordered_list_def)
  show ?thesis
    unfolding loop_body_def Let_def h u
    using parse_ordered_list_eq [OF assms(2), of "drop (Suc i) lines"]
    by (simp add: d [symmetric])
qed


lemma join_nl_block:
  "join_nl ([a] @ map list_item run @ [b])
   = a @ [newline]
     @ concat (map (\<lambda>l. ''<li>'' @ parse_inline_markdown (strip (drop 2 l)) @ ''</li>'' @ [newline]) run)
     @ b @ [newline]"
  by (simp add: join_nl_def list_item_def comp_def)

lemma marked_run_at:
  assumes "i < length lines" "startswith (lines ! i) m"
  shows "marked_run m (drop i lines) = take (length (marked_run m (drop i lines))) (drop i lines)
    \<and> (\<forall>l \<in> set (marked_run m (drop i lines)). startswith l m)
    \<and> 1 \<le> length (marked_run m (drop i lines))
    \<and> (i + length (marked_run m (drop i lines)) < length lines \<longrightarrow>
         \<not> startswith (lines ! (i + length (marked_run m (drop i lines)))) m)"
proof -
  let ?r = "marked_run m (drop i lines)"
  have d: "drop i lines = lines ! i # drop (Suc i) lines"
    using assms(1) by (simp add: Cons_nth_drop_Suc)
  have one: "1 \<le> length ?r"
    by (subst d) (simp add: marked_run_def assms(2))
  have le: "length ?r \<le> length (drop i lines)"
    unfolding marked_run_def by (rule length_takeWhile_le)
  have stop: "i + length ?r < length lines \<longrightarrow> \<not> startswith (lines ! (i + length ?r)) m"
  proof
    assume a: "i + length ?r < length lines"
    then have "length ?r < length (drop i lines)" by simp
    with marked_run_props [of m "drop i lines"]
    have "\<not> startswith (drop i lines ! length ?r) m" by blast
    moreover have "drop i lines ! length ?r = lines ! (i + length ?r)"
      using a by simp
    ultimately show "\<not> startswith (lines ! (i + length ?r)) m" by simp
  qed
  show ?thesis
    using marked_run_props [of m "drop i lines"] one stop by blast
qed

section \<open>Unordered lists\<close>

text \<open>
  Claim C3.  Where the line at the cursor starts with \<open>- \<close> it is not a heading, and one
  iteration of the scan takes the longest run of lines from the cursor that start with
  \<open>- \<close>: the run is a prefix of the remaining lines, has at least one line, and the line
  after it, if there is one, does not start with \<open>- \<close>.  The fragment written is \<open><ul>\<close>,
  then for every line of the run \<open><li>\<close>, the text after the marker, trimmed and
  transformed, and \<open></li>\<close>, then \<open></ul>\<close>, each followed by a line feed; the cursor moves
  by the length of the run.  The lines \<open>- a\<close>, \<open>- b\<close> and a blank line give exactly
  \<open><ul>\n<li>a</li>\n<li>b</li>\n</ul>\n\<close>.
\<close>

theorem unordered_list_block:
  assumes "i < length lines" "startswith (lines ! i) ''- ''"
  shows
   "parse_headings (strip (lines ! i)) = None
    \<and> loop_body lines i out
        = (i + length (marked_run ''- '' (drop i lines)),
           out @ [''<ul>'' @ [newline]
                  @ concat (map (\<lambda>l. ''<li>'' @ parse_inline_markdown (strip (drop 2 l)) @ ''</li>''
                                      @ [newline])
                             (marked_run ''- '' (drop i lines)))
                  @ ''</ul>'' @ [newline]])
    \<and> marked_run ''- '' (drop i lines)
        = take (length (marked_run ''- '' (drop i lines))) (drop i lines)
    \<and> (\<forall>l \<in> set (marked_run ''- '' (drop i lines)). startswith l ''- '')
    \<and> 1 \<le> length (marked_run ''- '' (drop i lines))
    \<and> (i + length (marked_run ''- '' (drop i lines)) < length lines \<longrightarrow>
         \<not> startswith (lines ! (i + length (marked_run ''- '' (drop i lines)))) ''- '')
    \<and> convert_lines [''- a\<newline>'', ''- b\<newline>'', ''\<newline>'']
        = Some [''<ul>\<newline><li>a</li>\<newline><li>b</li>\<newline></ul>\<newline>'']"
proof -
  have h: "parse_headings (strip (lines ! i)) = None"
    by (rule marker_not_heading [OF assms(2)]) (simp_all add: is_space_def)
  have e: "convert_lines [''- a\<newline>'', ''- b\<newline>'', ''\<newline>'']
           = Some [''<ul>\<newline><li>a</li>\<newline><li>b</li>\<newline></ul>\<newline>'']"
    by code_simp
  show ?thesis
    using h e loop_body_unordered [OF assms, of out] marked_run_at [OF assms]
    by (simp only: join_nl_block) blast
qed

theorem unordered_list_block_witness:
  "0 < length [''- a\<newline>'', ''- b\<newline>'', ''\<newline>'']
   \<and> startswith ([''- a\<newline>'', ''- b\<newline>'', ''\<newline>''] ! 0) ''- ''
   \<and> marked_run ''- '' (drop 0 [''- a\<newline>'', ''- b\<newline>'', ''\<newline>'']) = [''- a\<newline>'', ''- b\<newline>'']
   \<and> loop_body [''- a\<newline>'', ''- b\<newline>'', ''\<newline>''] 0 []
       = (2, [''<ul>\<newline><li>a</li>\<newline><li>b</li>\<newline></ul>\<newline>''])
   \<and> 0 + 2 < length [''- a\<newline>'', ''- b\<newline>'', ''\<newline>'']
   \<and> \<not> startswith ([''- a\<newline>'', ''- b\<newline>'', ''\<newline>''] ! (0 + 2)) ''- ''"
proof -
  let ?ls = "[''- a\<newline>'', ''- b\<newline>'', ''\<newline>'']"
  have a: "0 < length ?ls" by simp
  have b: "startswith (?ls ! 0) ''- ''" by (simp add: startswith_def)
  have r: "marked_run ''- '' (drop 0 ?ls) = [''- a\<newline>'', ''- b\<newline>'']"
    by (simp add: marked_run_def startswith_def)
  have i: "parse_inline_markdown (strip (drop 2 ''- a\<newline>'')) = ''a''
           \<and> parse_inline_markdown (strip (drop 2 ''- b\<newline>'')) = ''b''"
    by code_simp
  show ?thesis
    using a b unordered_list_block [OF a b, of "[]"]
    unfolding r using i by (simp add: newline_def)
qed

section \<open>Ordered lists\<close>

text \<open>
  Claim C7.  Where the line at the cursor starts with \<open>* \<close> it is neither a heading nor the
  start of an unordered list, and one iteration of the scan does what it does for an
  unordered list, with the marker \<open>* \<close> and the tags \<open><ol>\<close> and \<open></ol>\<close>: it takes the
  longest run of lines that start with \<open>* \<close>, writes one \<open><li>\<close> item for each of them
  between \<open><ol>\<close> and \<open></ol>\<close>, and moves the cursor by the length of the run.
\<close>

theorem ordered_list_block:
  assumes "i < length lines" "startswith (lines ! i) ''* ''"
  shows
   "parse_headings (strip (lines ! i)) = None
    \<and> parse_unordered_list (drop i lines) = None
    \<and> loop_body lines i out
        = (i + length (marked_run ''* '' (drop i lines)),
           out @ [''<ol>'' @ [newline]
                  @ concat (map (\<lambda>l. ''<li>'' @ parse_inline_markdown (strip (drop 2 l)) @ ''</li>''
                                      @ [newline])
                             (marked_run ''* '' (drop i lines)))
                  @ ''</ol>'' @ [newline]])
    \<and> marked_run ''* '' (drop i lines)
        = take (length (marked_run ''* '' (drop i lines))) (drop i lines)
    \<and> (\<forall>l \<in> set (marked_run ''* '' (drop i lines)). startswith l ''* '')
    \<and> 1 \<le> length (marked_run ''* '' (drop i lines))
    \<and> (i + length (marked_run ''* '' (drop i lines)) < length lines \<longrightarrow>
         \<not> startswith (lines ! (i + length (marked_run ''* '' (drop i lines)))) ''* '')"
proof -
  have d: "drop i lines = lines ! i # drop (Suc i) lines"
    using assms(1) by (simp add: Cons_nth_drop_Suc)
  have h: "parse_headings (strip (lines ! i)) = None"
    by (rule marker_not_heading [OF assms(2)]) (simp_all add: is_space_def)
  have n: "\<not> startswith (lines ! i) ''- ''"
    using assms(2) by (auto simp: startswith_def)
  have u: "parse_unordered_list (drop i lines) = None"
    using n by (subst d) (simp add: parse_unordered_list_def)
  show ?thesis
    using h u loop_body_ordered [OF assms, of out] marked_run_at [OF assms]
    by (simp only: join_nl_block) blast
qed

theorem ordered_list_block_witness:
  "0 < length [''* a\<newline>'', ''* b\<newline>'', ''x\<newline>'']
   \<and> startswith ([''* a\<newline>'', ''* b\<newline>'', ''x\<newline>''] ! 0) ''* ''
   \<and> marked_run ''* '' (drop 0 [''* a\<newline>'', ''* b\<newline>'', ''x\<newline>'']) = [''* a\<newline>'', ''* b\<newline>'']
   \<and> loop_body [''* a\<newline>'', ''* b\<newline>'', ''x\<newline>''] 0 []
       = (2, [''<ol>\<newline><li>a</li>\<newline><li>b</li>\<newline></ol>\<newline>''])
   \<and> 0 + 2 < length [''* a\<newline>'', ''* b\<newline>'', ''x\<newline>'']
   \<and> \<not> startswith ([''* a\<newline>'', ''* b\<newline>'', ''x\<newline>''] ! (0 + 2)) ''* ''"
proof -
  let ?ls = "[''* a\<newline>'', ''* b\<newline>'', ''x\<newline>'']"
  have a: "0 < length ?ls" by simp
  have b: "startswith (?ls ! 0) ''* ''" by (simp add: startswith_def)
  have r: "marked_run ''* '' (drop 0 ?ls) = [''* a\<newline>'', ''* b\<newline>'']"
    by (simp add: marked_run_def startswith_def)
  have i: "parse_inline_markdown (strip (drop 2 ''* a\<newline>'')) = ''a''
           \<and> parse_inline_markdown (strip (drop 2 ''* b\<newline>'')) = ''b''"
    by code_simp
  show ?thesis
    using a b ordered_list_block [OF a b, of "[]"]
    unfolding r using i by (simp add: newline_def)
qed

section \<open>The heading pattern\<close>

lemma is_space_newline: "is_space newline"
  by (simp add: is_space_def newline_def)

lemma is_space_not_hash: "is_space w \<Longrightarrow> w \<noteq> CHR ''#''"
  by (auto simp: is_space_def)

lemma strip_last:
  assumes "strip s \<noteq> []"
  shows "\<not> is_space (last (strip s))"
proof -
  let ?d = "dropWhile is_space (rev (dropWhile is_space s))"
  have n: "?d \<noteq> []" using assms by (simp add: strip_def)
  have "last (strip s) = hd ?d"
    using n by (simp add: strip_def last_rev)
  moreover have "\<not> is_space (hd ?d)"
    using n by (rule hd_dropWhile)
  ultimately show ?thesis by simp
qed

lemma match_content_Some:
  assumes "g \<noteq> []" "newline \<notin> set g" "tail = [] \<or> tail = [newline]"
  shows "match_content (g @ tail) = Some g"
proof -
  have t: "takeWhile (\<lambda>c. c \<noteq> newline) (g @ tail) = g"
    using assms(2,3) by (auto simp: takeWhile_append)
  have d: "dropWhile (\<lambda>c. c \<noteq> newline) (g @ tail) = tail"
    using assms(2,3) by (auto simp: dropWhile_append)
  show ?thesis
    unfolding match_content_def Let_def t d using assms(1,3) by auto
qed

lemma match_content_D:
  assumes "match_content s = Some g"
  shows "g \<noteq> [] \<and> newline \<notin> set g \<and> (s = g \<or> s = g @ [newline])"
proof -
  define t where "t = takeWhile (\<lambda>c. c \<noteq> newline) s"
  define d where "d = dropWhile (\<lambda>c. c \<noteq> newline) s"
  from assms have g: "g = t" and n: "t \<noteq> []" and r: "d = [] \<or> d = [newline]"
    unfolding t_def d_def by (auto simp: match_content_def Let_def split: if_splits)
  have m: "newline \<notin> set t" unfolding t_def by (auto dest: set_takeWhileD)
  have s: "s = t @ d" unfolding t_def d_def by simp
  show ?thesis
    unfolding g using n m r s by auto
qed

lemma try_hashes_D:
  "try_hashes n t = Some r \<Longrightarrow> \<exists>j. 1 \<le> j \<and> j \<le> n \<and> match_after_hashes j t = Some r"
proof (induction n)
  case 0
  then show ?case by simp
next
  case (Suc n)
  show ?case
  proof (cases "match_after_hashes (Suc n) t")
    case None
    with Suc obtain j where "1 \<le> j" "j \<le> n" "match_after_hashes j t = Some r" by auto
    then show ?thesis by (intro exI [of _ j]) simp
  next
    case (Some a)
    with Suc.prems have "match_after_hashes (Suc n) t = Some r" by simp
    then show ?thesis by (intro exI [of _ "Suc n"]) simp
  qed
qed

lemma match_after_hashes_D:
  assumes "match_after_hashes j t = Some (g1, g2)"
  shows "g1 = take j t \<and> (\<exists>w rest. drop j t = w # rest \<and> is_space w \<and> match_content rest = Some g2)"
  using assms
  by (auto simp: match_after_hashes_def split: list.splits if_splits option.splits)

lemma take_hashes:
  assumes "j \<le> length (takeWhile (\<lambda>c. c = CHR ''#'') t)"
  shows "take j t = replicate j (CHR ''#'')"
proof -
  let ?h = "takeWhile (\<lambda>c. c = CHR ''#'') t"
  have "take j t = take j (?h @ dropWhile (\<lambda>c. c = CHR ''#'') t)" by simp
  also have "\<dots> = take j ?h" using assms by (simp del: takeWhile_dropWhile_id)
  finally have e: "take j t = take j ?h" .
  have "take j ?h = replicate j (CHR ''#'')"
  proof (rule replicate_eqI)
    show "length (take j ?h) = j" using assms by simp
  next
    fix y
    assume "y \<in> set (take j ?h)"
    then show "y = CHR ''#''"
      by (auto dest: in_set_takeD set_takeWhileD)
  qed
  with e show ?thesis by simp
qed

lemma match_heading_D:
  assumes "match_heading t = Some (g1, g2)"
  shows "\<exists>k w. 1 \<le> k \<and> k \<le> 6 \<and> g1 = replicate k (CHR ''#'') \<and> is_space w \<and> g2 \<noteq> []
           \<and> newline \<notin> set g2 \<and> (t = g1 @ w # g2 \<or> t = g1 @ w # g2 @ [newline])"
proof -
  let ?n = "min 6 (length (takeWhile (\<lambda>c. c = CHR ''#'') t))"
  from assms obtain j where j: "1 \<le> j" "j \<le> ?n" "match_after_hashes j t = Some (g1, g2)"
    unfolding match_heading_def using try_hashes_D by blast
  from match_after_hashes_D [OF j(3)] obtain w rest where
    g1: "g1 = take j t" and d: "drop j t = w # rest" and w: "is_space w"
    and c: "match_content rest = Some g2" by blast
  have r: "g1 = replicate j (CHR ''#'')"
    using g1 take_hashes [of j t] j(2) by simp
  have t: "t = g1 @ w # rest"
    using g1 d append_take_drop_id [of j t] by simp
  from match_content_D [OF c] have "g2 \<noteq> []" "newline \<notin> set g2" "rest = g2 \<or> rest = g2 @ [newline]"
    by auto
  with j r w t show ?thesis by (intro exI [of _ j] exI [of _ w]) auto
qed

lemma match_heading_Some:
  assumes "1 \<le> k" "k \<le> 6" "is_space w" "g \<noteq> []" "newline \<notin> set g"
    "tail = [] \<or> tail = [newline]"
  shows "match_heading (replicate k (CHR ''#'') @ w # g @ tail) = Some (replicate k (CHR ''#''), g)"
proof -
  let ?t = "replicate k (CHR ''#'') @ w # g @ tail"
  have "takeWhile (\<lambda>c. c = CHR ''#'') ?t = replicate k (CHR ''#'')"
    using is_space_not_hash [OF assms(3)] by (simp add: takeWhile_append)
  then have n: "min 6 (length (takeWhile (\<lambda>c. c = CHR ''#'') ?t)) = k"
    using assms(2) by simp
  have m: "match_after_hashes k ?t = Some (replicate k (CHR ''#''), g)"
    using assms(3) match_content_Some [OF assms(4,5,6)]
    by (simp add: match_after_hashes_def)
  obtain j where k: "k = Suc j" using assms(1) by (cases k) auto
  show ?thesis
    unfolding match_heading_def n using m unfolding k by simp
qed

lemma parse_headings_nonempty: "parse_headings t = Some r \<Longrightarrow> r \<noteq> []"
  by (auto simp: parse_headings_def Let_def split: option.splits)

lemma loop_body_heading:
  assumes "parse_headings (strip (lines ! i)) = Some r"
  shows "loop_body lines i out = (i + 1, out @ [r])"
  using assms parse_headings_nonempty [OF assms] by (simp add: loop_body_def Let_def)


lemma parse_headings_Some:
  assumes "1 \<le> k" "k \<le> 6" "is_space w" "g \<noteq> []" "newline \<notin> set g"
  shows "parse_headings (replicate k (CHR ''#'') @ w # g)
         = Some (''<h'' @ str_nat k @ ''>'' @ parse_inline_markdown g @ ''</h'' @ str_nat k @ ''>''
                 @ [newline])"
  using match_heading_Some [OF assms, of "[]"] by (simp add: parse_headings_def)

lemma parse_headings_strip_D:
  assumes "parse_headings (strip line) = Some r"
  shows "\<exists>k w content. 1 \<le> k \<and> k \<le> 6 \<and> is_space w \<and> content \<noteq> [] \<and> newline \<notin> set content
           \<and> strip line = replicate k (CHR ''#'') @ w # content
           \<and> r = ''<h'' @ str_nat k @ ''>'' @ parse_inline_markdown content @ ''</h'' @ str_nat k
                   @ ''>'' @ [newline]"
proof -
  from assms obtain g1 g2 where m: "match_heading (strip line) = Some (g1, g2)"
    and r: "r = ''<h'' @ str_nat (length g1) @ ''>'' @ parse_inline_markdown g2 @ ''</h''
                @ str_nat (length g1) @ ''>'' @ [newline]"
    by (auto simp: parse_headings_def Let_def split: option.splits)
  from match_heading_D [OF m] obtain k w where
    k: "1 \<le> k" "k \<le> 6" and g1: "g1 = replicate k (CHR ''#'')" and w: "is_space w"
    and g2: "g2 \<noteq> []" "newline \<notin> set g2"
    and t: "strip line = g1 @ w # g2 \<or> strip line = g1 @ w # g2 @ [newline]"
    by blast
  have "strip line \<noteq> g1 @ w # g2 @ [newline]"
  proof
    assume e: "strip line = g1 @ w # g2 @ [newline]"
    then have "strip line \<noteq> []" by simp
    from strip_last [OF this] show False
      unfolding e using is_space_newline by simp
  qed
  with t have "strip line = replicate k (CHR ''#'') @ w # g2"
    using g1 by simp
  moreover have "r = ''<h'' @ str_nat k @ ''>'' @ parse_inline_markdown g2 @ ''</h'' @ str_nat k
                   @ ''>'' @ [newline]"
    using r g1 by simp
  ultimately show ?thesis
    using k w g2 by blast
qed

section \<open>Headings\<close>

text \<open>
  Claim C2, as the code has it.  The trimmed line is a heading if and only if it is one to
  six \<open>#\<close>, then one character of the class \<open>\s\<close> (a space, a tab or any other
  whitespace character), then a content that is not empty and has no line feed.  The
  fragment is then \<open><hk>\<close>, the transformed content, \<open></hk>\<close> and a line feed, where
  \<open>k\<close> is the number of \<open>#\<close>, written as one digit; it is the only thing written in the
  iteration, and the cursor moves by one.  The single line \<open># Title\<close> gives exactly
  \<open><h1>Title</h1>\<close> and a line feed.
\<close>

theorem heading_block:
  "(1 \<le> k \<and> k \<le> 6 \<and> is_space w \<and> content \<noteq> [] \<and> newline \<notin> set content
      \<and> strip line = replicate k (CHR ''#'') @ w # content \<longrightarrow>
      parse_headings (strip line)
        = Some (''<h'' @ str_nat k @ ''>'' @ parse_inline_markdown content @ ''</h'' @ str_nat k
                @ ''>'' @ [newline]))
   \<and> (parse_headings (strip line) = Some r \<longrightarrow>
       (\<exists>k w content. 1 \<le> k \<and> k \<le> 6 \<and> is_space w \<and> content \<noteq> [] \<and> newline \<notin> set content
           \<and> strip line = replicate k (CHR ''#'') @ w # content
           \<and> r = ''<h'' @ str_nat k @ ''>'' @ parse_inline_markdown content @ ''</h'' @ str_nat k
                   @ ''>'' @ [newline]))
   \<and> (i < length lines \<and> parse_headings (strip (lines ! i)) = Some r' \<longrightarrow>
       loop_body lines i out = (i + 1, out @ [r']))
   \<and> map str_nat [1, 2, 3, 4, 5, 6] = [''1'', ''2'', ''3'', ''4'', ''5'', ''6'']
   \<and> convert_lines [''# Title\<newline>''] = Some [''<h1>Title</h1>\<newline>'']"
proof -
  have a: "1 \<le> k \<and> k \<le> 6 \<and> is_space w \<and> content \<noteq> [] \<and> newline \<notin> set content
      \<and> strip line = replicate k (CHR ''#'') @ w # content \<longrightarrow>
      parse_headings (strip line)
        = Some (''<h'' @ str_nat k @ ''>'' @ parse_inline_markdown content @ ''</h'' @ str_nat k
                @ ''>'' @ [newline])"
    using parse_headings_Some [of k w content] by auto
  have d: "map str_nat [1, 2, 3, 4, 5, 6] = [''1'', ''2'', ''3'', ''4'', ''5'', ''6'']"
    by code_simp
  have e: "convert_lines [''# Title\<newline>''] = Some [''<h1>Title</h1>\<newline>'']"
    by code_simp
  show ?thesis
    using a parse_headings_strip_D [of line r] loop_body_heading [of lines i r' out] d e
    by blast
qed

theorem heading_block_witness:
  "is_space (CHR '' '') \<and> ''Hi'' \<noteq> [] \<and> newline \<notin> set ''Hi''
   \<and> strip ''## Hi\<newline>'' = replicate 2 (CHR ''#'') @ CHR '' '' # ''Hi''
   \<and> parse_headings (strip ''## Hi\<newline>'') = Some ''<h2>Hi</h2>\<newline>''
   \<and> loop_body [''## Hi\<newline>''] 0 [] = (1, [''<h2>Hi</h2>\<newline>''])"
proof -
  let ?l = "''## Hi\<newline>''" and ?r = "''<h2>Hi</h2>\<newline>''"
  note hb = heading_block [of 2 "CHR '' ''" "''Hi''" ?l ?r 0 "[?l]" ?r "[]"]
  have s: "strip ?l = replicate 2 (CHR ''#'') @ CHR '' '' # ''Hi''"
    by code_simp
  have h: "is_space (CHR '' '') \<and> ''Hi'' \<noteq> [] \<and> newline \<notin> set ''Hi''"
    by (simp add: is_space_def newline_def)
  have v: "''<h'' @ str_nat 2 @ ''>'' @ parse_inline_markdown ''Hi'' @ ''</h'' @ str_nat 2 @ ''>''
           @ [newline] = ?r"
    by code_simp
  have k: "(1::nat) \<le> 2 \<and> (2::nat) \<le> 6" by simp
  from hb have "parse_headings (strip ?l)
      = Some (''<h'' @ str_nat 2 @ ''>'' @ parse_inline_markdown ''Hi'' @ ''</h'' @ str_nat 2
              @ ''>'' @ [newline])"
    using k h s by blast
  then have p: "parse_headings (strip ?l) = Some ?r"
    by (simp only: v)
  have l: "0 < length [?l] \<and> parse_headings (strip ([?l] ! 0)) = Some ?r"
    using p by simp
  from hb l have "loop_body [?l] 0 [] = (0 + 1, [] @ [?r])"
    by blast
  then have b: "loop_body [?l] 0 [] = (1, [?r])"
    by simp
  show ?thesis
    using s h p b by blast
qed

text \<open>
  Claim C2 as stated asks for a space after the \<open>#\<close> characters.  The line made of \<open>#\<close>,
  a tab and \<open>T\<close> has no space at all, and it is a heading: the scan writes
  \<open><h1>T</h1>\<close> and moves the cursor by one.
\<close>

theorem heading_after_tab:
  "parse_headings (strip [CHR ''#'', CHR 0x09, CHR ''T'', CHR 0x0A]) = Some ''<h1>T</h1>\<newline>''
   \<and> CHR '' '' \<notin> set (strip [CHR ''#'', CHR 0x09, CHR ''T'', CHR 0x0A])
   \<and> loop_body [[CHR ''#'', CHR 0x09, CHR ''T'', CHR 0x0A]] 0 [] = (1, [''<h1>T</h1>\<newline>''])"
  by code_simp

section \<open>Termination of the scan\<close>

text \<open>
  Claim C10.  For every list of lines the scanning loop ends.  One iteration at a cursor
  \<open>i\<close> inside the list moves the cursor strictly forward; a list or a paragraph that is
  recognised reports a size of at least one; and the loop, defined without any termination
  argument, returns a result from every cursor and every output so far, so
  the conversion of any list of lines returns.
\<close>

theorem scan_loop_terminates:
  "(i < length lines \<longrightarrow> i < fst (loop_body lines i out))
   \<and> (parse_unordered_list ls1 = Some (h1, k1) \<longrightarrow> 1 \<le> k1)
   \<and> (parse_ordered_list ls2 = Some (h2, k2) \<longrightarrow> 1 \<le> k2)
   \<and> (parse_paragraph ls3 = Some (h3, k3) \<longrightarrow> 1 \<le> k3)
   \<and> (\<exists>r. scan_loop lines i out = Some r)
   \<and> (\<exists>r. convert_lines lines = Some r)"
  using loop_body_advances [of i lines out] parse_unordered_list_count [of ls1 h1 k1]
    parse_ordered_list_count [of ls2 h2 k2] parse_paragraph_count [of ls3 h3 k3]
    scan_loop_total [of lines i out] scan_loop_total [of lines 0 "[]"]
  unfolding convert_lines_def by blast

theorem scan_loop_terminates_witness:
  "0 < length [''- a'', ''* b'', ''c'']
   \<and> 0 < fst (loop_body [''- a'', ''* b'', ''c''] 0 [])
   \<and> parse_unordered_list [''- a''] = Some (''<ul>\<newline><li>a</li>\<newline></ul>\<newline>'', 1)
   \<and> parse_ordered_list [''* b''] = Some (''<ol>\<newline><li>b</li>\<newline></ol>\<newline>'', 1)
   \<and> parse_paragraph [''c''] = Some (''<p>\<newline>c\<newline></p>\<newline>'', 1)
   \<and> (\<exists>r. scan_loop [''- a'', ''* b'', ''c''] 0 [] = Some r)"
proof -
  have a: "parse_unordered_list [''- a''] = Some (''<ul>\<newline><li>a</li>\<newline></ul>\<newline>'', 1)"
    by code_simp
  have b: "parse_ordered_list [''* b''] = Some (''<ol>\<newline><li>b</li>\<newline></ol>\<newline>'', 1)"
    by code_simp
  have c: "parse_paragraph [''c''] = Some (''<p>\<newline>c\<newline></p>\<newline>'', 1)"
    by code_simp
  have d: "0 < length [''- a'', ''* b'', ''c'']" by simp
  show ?thesis
    using a b c d
      scan_loop_terminates [of 0 "[''- a'', ''* b'', ''c'']" "[]" "[''- a'']"
        "''<ul>\<newline><li>a</li>\<newline></ul>\<newline>''" 1 "[''* b'']"
        "''<ol>\<newline><li>b</li>\<newline></ol>\<newline>''" 1 "[''c'']"
        "''<p>\<newline>c\<newline></p>\<newline>''" 1]
    by blast
qed

section \<open>The cursor after a paragraph\<close>

text \<open>
  Claim C1.  The claim asks that the cursor moves by the number of lines taken into the
  paragraph.  \<open>parse_paragraph\<close> reports the length of \<open>html_para\<close> less two, and \<open>html_para\<close>
  also holds the \<open><br/>\<close> entries: a paragraph of \<open>n\<close> lines reports \<open>2 * n - 1\<close>
  (\<open>parse_paragraph_count\<close>).  On the five lines \<open>a\<close>, \<open>b\<close>, \<open>c\<close>, a blank line and the
  heading \<open># T\<close> the paragraph takes three lines and the cursor moves by five; the heading,
  which alone converts to \<open><h1>T</h1>\<close>, is never looked at and is missing in the output.
\<close>

theorem paragraph_cursor_overshoots:
  "length (takeWhile nonblank [''a\<newline>'', ''b\<newline>'', ''c\<newline>'', ''\<newline>'', ''# T\<newline>'']) = 3
   \<and> parse_paragraph [''a\<newline>'', ''b\<newline>'', ''c\<newline>'', ''\<newline>'', ''# T\<newline>'']
       = Some (''<p>\<newline>a\<newline><br/>\<newline>b\<newline><br/>\<newline>c\<newline></p>\<newline>'', 5)
   \<and> fst (loop_body [''a\<newline>'', ''b\<newline>'', ''c\<newline>'', ''\<newline>'', ''# T\<newline>''] 0 []) = 5
   \<and> convert_lines [''a\<newline>'', ''b\<newline>'', ''c\<newline>'', ''\<newline>'', ''# T\<newline>'']
       = Some [''<p>\<newline>a\<newline><br/>\<newline>b\<newline><br/>\<newline>c\<newline></p>\<newline>'']
   \<and> convert_lines [''# T\<newline>''] = Some [''<h1>T</h1>\<newline>'']"
  by code_simp

section \<open>The driver\<close>

lemma loop_body_out:
  "loop_body lines i out = (fst (loop_body lines i []), out @ snd (loop_body lines i []))"
  by (simp add: loop_body_def Let_def split: option.splits prod.splits)

lemma scan_loop_out:
  "scan_loop lines i out = map_option (\<lambda>r. out @ r) (scan_loop lines i [])"
proof (induction "length lines - i" arbitrary: i out rule: less_induct)
  case less
  show ?case
  proof (cases "i < length lines")
    case True
    let ?i = "fst (loop_body lines i [])" and ?f = "snd (loop_body lines i [])"
    have d: "length lines - ?i < length lines - i"
      using True loop_body_advances [of i lines "[]"] by arith
    have b: "loop_body lines i out = (?i, out @ ?f)"
      by (rule loop_body_out)
    have "scan_loop lines i out = scan_loop lines ?i (out @ ?f)"
      using True b by (subst scan_loop.simps) simp
    also have "\<dots> = map_option (\<lambda>r. (out @ ?f) @ r) (scan_loop lines ?i [])"
      by (rule less [OF d])
    finally have l: "scan_loop lines i out
                     = map_option (\<lambda>r. (out @ ?f) @ r) (scan_loop lines ?i [])" .
    have "scan_loop lines i [] = scan_loop lines ?i ?f"
      using True by (subst scan_loop.simps) simp
    also have "\<dots> = map_option (\<lambda>r. ?f @ r) (scan_loop lines ?i [])"
      by (rule less [OF d])
    finally have r: "scan_loop lines i [] = map_option (\<lambda>r. ?f @ r) (scan_loop lines ?i [])" .
    show ?thesis
      unfolding l r by (cases "scan_loop lines ?i []") simp_all
  next
    case False
    have "scan_loop lines i out = Some out" "scan_loop lines i [] = Some []"
      using False by (subst scan_loop.simps, simp)+
    then show ?thesis by simp
  qed
qed

lemma write_all_append:
  "write_all io (a @ b) w
   = (case write_all io a w of
        (Some e, w') \<Rightarrow> (Some e, w')
      | (None, w') \<Rightarrow> write_all io b w')"
  by (induction a arbitrary: w) (auto split: prod.splits option.splits)

lemma write_loop_eq:
  "write_loop io lines i w = map_option (\<lambda>frags. write_all io frags w) (scan_loop lines i [])"
proof (induction "length lines - i" arbitrary: i w rule: less_induct)
  case less
  show ?case
  proof (cases "i < length lines")
    case True
    let ?i = "fst (loop_body lines i [])" and ?f = "snd (loop_body lines i [])"
    have d: "length lines - ?i < length lines - i"
      using True loop_body_advances [of i lines "[]"] by arith
    obtain g where g: "scan_loop lines ?i [] = Some g"
      using scan_loop_total by blast
    have "scan_loop lines i [] = scan_loop lines ?i ?f"
      using True by (subst scan_loop.simps) simp
    then have s: "scan_loop lines i [] = Some (?f @ g)"
      using scan_loop_out [of lines ?i ?f] g by simp
    obtain r w' where r: "write_all io ?f w = (r, w')"
      by (cases "write_all io ?f w") auto
    have l: "write_loop io lines i w
             = (if r \<noteq> None then Some (r, w') else write_loop io lines ?i w')"
      using True r by (subst write_loop.simps) (simp add: Let_def)
    show ?thesis
    proof (cases r)
      case None
      have "write_loop io lines ?i w' = Some (write_all io g w')"
        using less [OF d, of w'] g by simp
      then show ?thesis
        using l None r s by (simp add: write_all_append)
    next
      case (Some e)
      then show ?thesis
        using l r s by (simp add: write_all_append)
    qed
  next
    case False
    have "write_loop io lines i w = Some (None, w)" "scan_loop lines i [] = Some []"
      using False by (subst write_loop.simps scan_loop.simps, simp)+
    then show ?thesis by simp
  qed
qed

lemma write_loop_returns: "(write_loop io lines i w = None) = False"
  using write_loop_eq [of io lines i w] scan_loop_total [of lines i "[]"] by auto

lemma convert_returns: "convert_markdown_to_html io input_file output_file w \<noteq> None"
  by (simp add: convert_markdown_to_html_def write_loop_returns
      split: prod.splits option.splits sum.splits)

lemma convert_ok:
  assumes "open_file io Md_file input_file w = (None, w1)"
    "open_file io Html_file output_file w1 = (None, w2)"
    "readlines io w2 = (Inr lines, w3)"
    "scan_loop lines 0 [] = Some frags"
    "write_all io frags w3 = (None, w4)"
    "close_file io Html_file w4 = (None, w5)"
    "close_file io Md_file w5 = (None, w6)"
  shows "convert_markdown_to_html io input_file output_file w = Some (None, w6)"
proof -
  have "write_loop io lines 0 w3 = Some (None, w4)"
    using write_loop_eq [of io lines 0 w3] assms(4,5) by simp
  then show ?thesis
    using assms by (simp add: convert_markdown_to_html_def exit_with_def)
qed

lemma convert_open_raises:
  assumes "open_file io Md_file input_file w = (Some e, w1)"
  shows "convert_markdown_to_html io input_file output_file w = Some (Some e, w1)"
  using assms by (simp add: convert_markdown_to_html_def)

lemma convert_no_error_D:
  assumes "convert_markdown_to_html io input_file output_file w = Some (None, w')"
  shows "fst (open_file io Md_file input_file w) = None
         \<and> fst (open_file io Html_file output_file (snd (open_file io Md_file input_file w))) = None"
  using assms
  by (auto simp: convert_markdown_to_html_def exit_with_def
      split: prod.splits option.splits sum.splits)

lemma main_usage:
  "(map_option fst (main io argv w) = Some (Exit 1 usage)) = (length argv < 3)"
  by (auto simp: main_def Let_def usage_def split: option.splits prod.splits)

lemma main_missing:
  "(map_option fst (main io argv w) = Some (Exit 1 (''Missing '' @ argv ! 1 @ [newline])))
   = (3 \<le> length argv \<and> \<not> path_exists io (argv ! 1) w)"
  by (auto simp: main_def Let_def usage_def split: option.splits prod.splits)

lemma main_exit_0_D:
  assumes "map_option fst (main io argv w) = Some (Exit 0 [])"
  shows "3 \<le> length argv \<and> path_exists io (argv ! 1) w
         \<and> fst (open_file io Md_file (argv ! 1) w) = None
         \<and> fst (open_file io Html_file (argv ! 2) (snd (open_file io Md_file (argv ! 1) w))) = None"
proof -
  from assms have a: "3 \<le> length argv" "path_exists io (argv ! 1) w"
    by (auto simp: main_def Let_def split: if_splits)
  with assms obtain w' where
    "convert_markdown_to_html io (argv ! 1) (argv ! 2) w = Some (None, w')"
    by (auto simp: main_def Let_def split: option.splits prod.splits)
  from convert_no_error_D [OF this] a show ?thesis by simp
qed

text \<open>
  Claim C9, as the code has it.  The driver ends with the usage message and status 1
  exactly when \<open>argv\<close> has fewer than three entries, that is fewer than two file
  arguments, and then nothing else happens; it ends with the message \<open>Missing\<close> and the
  input path, and status 1, exactly when there are two file arguments and the input path
  does not exist.  When the path exists and opening the two files, reading the lines,
  writing the fragments and closing the files raise nothing, the fragments written are
  those of the scan of the lines read, which always returns, and the status is 0.  When
  opening the input raises, the exception is not caught.  The status 0 is reached only
  with two file arguments, an input path that exists and two files that open; and the
  driver always ends.
\<close>

theorem main_outcomes:
  "(map_option fst (main io argv w) = Some (Exit 1 usage) \<longleftrightarrow> length argv < 3)
   \<and> (length argv < 3 \<longrightarrow> main io argv w = Some (Exit 1 usage, w))
   \<and> (map_option fst (main io argv w) = Some (Exit 1 (''Missing '' @ argv ! 1 @ [newline]))
        \<longleftrightarrow> 3 \<le> length argv \<and> \<not> path_exists io (argv ! 1) w)
   \<and> (3 \<le> length argv \<and> \<not> path_exists io (argv ! 1) w \<longrightarrow>
        main io argv w = Some (Exit 1 (''Missing '' @ argv ! 1 @ [newline]), w))
   \<and> (3 \<le> length argv \<and> path_exists io (argv ! 1) w
        \<and> open_file io Md_file (argv ! 1) w = (None, w1)
        \<and> open_file io Html_file (argv ! 2) w1 = (None, w2)
        \<and> readlines io w2 = (Inr lines, w3)
        \<and> scan_loop lines 0 [] = Some frags
        \<and> write_all io frags w3 = (None, w4)
        \<and> close_file io Html_file w4 = (None, w5)
        \<and> close_file io Md_file w5 = (None, w6) \<longrightarrow>
        main io argv w = Some (Exit 0 [], w6))
   \<and> (\<exists>fs. scan_loop lines 0 [] = Some fs)
   \<and> (3 \<le> length argv \<and> path_exists io (argv ! 1) w
        \<and> open_file io Md_file (argv ! 1) w = (Some e, w1) \<longrightarrow>
        main io argv w = Some (Uncaught e, w1))
   \<and> (map_option fst (main io argv w) = Some (Exit 0 []) \<longrightarrow>
        3 \<le> length argv \<and> path_exists io (argv ! 1) w
        \<and> fst (open_file io Md_file (argv ! 1) w) = None
        \<and> fst (open_file io Html_file (argv ! 2) (snd (open_file io Md_file (argv ! 1) w))) = None)
   \<and> main io argv w \<noteq> None"
proof -
  have u: "length argv < 3 \<longrightarrow> main io argv w = Some (Exit 1 usage, w)"
    by (simp add: main_def)
  have m: "3 \<le> length argv \<and> \<not> path_exists io (argv ! 1) w \<longrightarrow>
        main io argv w = Some (Exit 1 (''Missing '' @ argv ! 1 @ [newline]), w)"
    by (simp add: main_def)
  have c: "3 \<le> length argv \<and> path_exists io (argv ! 1) w
        \<and> open_file io Md_file (argv ! 1) w = (None, w1)
        \<and> open_file io Html_file (argv ! 2) w1 = (None, w2)
        \<and> readlines io w2 = (Inr lines, w3)
        \<and> scan_loop lines 0 [] = Some frags
        \<and> write_all io frags w3 = (None, w4)
        \<and> close_file io Html_file w4 = (None, w5)
        \<and> close_file io Md_file w5 = (None, w6) \<longrightarrow>
        main io argv w = Some (Exit 0 [], w6)"
    using convert_ok [of io "argv ! 1" w w1 "argv ! 2" w2 lines w3 frags w4 w5 w6]
    by (auto simp: main_def Let_def)
  have r: "3 \<le> length argv \<and> path_exists io (argv ! 1) w
        \<and> open_file io Md_file (argv ! 1) w = (Some e, w1) \<longrightarrow>
        main io argv w = Some (Uncaught e, w1)"
    using convert_open_raises [of io "argv ! 1" w e w1 "argv ! 2"]
    by (auto simp: main_def Let_def)
  have n: "main io argv w \<noteq> None"
    using convert_returns [of io "argv ! 1" "argv ! 2" w]
    by (auto simp: main_def Let_def split: option.splits prod.splits)
  show ?thesis
    using main_usage [of io argv w] u main_missing [of io argv w] m c
      scan_loop_total [of lines 0 "[]"] r main_exit_0_D [of io argv w] n
    by blast
qed

theorem main_outcomes_witness:
  "3 \<le> length [''prog'', ''in.md'', ''out.html'']
   \<and> path_exists (memory_os [''# T\<newline>'']) ([''prog'', ''in.md'', ''out.html''] ! 1) []
   \<and> scan_loop [''# T\<newline>''] 0 [] = Some [''<h1>T</h1>\<newline>'']
   \<and> main (memory_os [''# T\<newline>'']) [''prog'', ''in.md'', ''out.html''] []
       = Some (Exit 0 [], [''<h1>T</h1>\<newline>''])
   \<and> \<not> path_exists (memory_os [''# T\<newline>'']) ([''prog'', ''no.md'', ''out.html''] ! 1) []
   \<and> main (memory_os [''# T\<newline>'']) [''prog'', ''no.md'', ''out.html''] []
       = Some (Exit 1 ''Missing no.md\<newline>'', [])
   \<and> length [''prog'', ''in.md''] < 3
   \<and> main (memory_os [''# T\<newline>'']) [''prog'', ''in.md''] [] = Some (Exit 1 usage, [])
   \<and> path_exists directory_os ([''prog'', ''d'', ''out.html''] ! 1) ()
   \<and> open_file directory_os Md_file ([''prog'', ''d'', ''out.html''] ! 1) () = (Some IsADirectoryError, ())
   \<and> main directory_os [''prog'', ''d'', ''out.html''] () = Some (Uncaught IsADirectoryError, ())"
proof -
  let ?io = "memory_os [''# T\<newline>'']" and ?argv = "[''prog'', ''in.md'', ''out.html'']"
  let ?out = "[''<h1>T</h1>\<newline>'']"
  have s: "scan_loop [''# T\<newline>''] 0 [] = Some ?out"
    by code_simp
  have h: "3 \<le> length ?argv \<and> path_exists ?io (?argv ! 1) []
      \<and> open_file ?io Md_file (?argv ! 1) [] = (None, [])
      \<and> open_file ?io Html_file (?argv ! 2) [] = (None, [])
      \<and> readlines ?io [] = (Inr [''# T\<newline>''], [])
      \<and> write_all ?io ?out [] = (None, ?out)
      \<and> close_file ?io Html_file ?out = (None, ?out)
      \<and> close_file ?io Md_file ?out = (None, ?out)"
    by (simp add: memory_os_def)
  have a: "main ?io ?argv [] = Some (Exit 0 [], ?out)"
    using main_outcomes [of ?io ?argv "[]" "[]" "[]" "[''# T\<newline>'']" "[]" ?out ?out ?out ?out]
      h s by blast
  let ?argn = "[''prog'', ''no.md'', ''out.html'']"
  have hn: "3 \<le> length ?argn \<and> \<not> path_exists ?io (?argn ! 1) []"
    by (simp add: memory_os_def)
  have "main ?io ?argn [] = Some (Exit 1 (''Missing '' @ ?argn ! 1 @ [newline]), [])"
    using main_outcomes [of ?io ?argn "[]"] hn by blast
  then have b: "main ?io ?argn [] = Some (Exit 1 ''Missing no.md\<newline>'', [])"
    by (simp add: newline_def)
  have hu: "length [''prog'', ''in.md''] < 3" by simp
  have c: "main ?io [''prog'', ''in.md''] [] = Some (Exit 1 usage, [])"
    using main_outcomes [of ?io "[''prog'', ''in.md'']" "[]"] hu by blast
  let ?argd = "[''prog'', ''d'', ''out.html'']"
  have hd: "3 \<le> length ?argd \<and> path_exists directory_os (?argd ! 1) ()
      \<and> open_file directory_os Md_file (?argd ! 1) () = (Some IsADirectoryError, ())"
    by (simp add: directory_os_def)
  have d: "main directory_os ?argd () = Some (Uncaught IsADirectoryError, ())"
    using main_outcomes [of directory_os ?argd "()" "()" _ _ _ _ _ _ _ IsADirectoryError] hd
    by blast
  show ?thesis
    using h s a hn b hu c hd d by blast
qed

text \<open>
  Claim C9 as stated has the conversion and a normal end in every case other than the two
  messages.  With two file arguments and an input path that exists and is a directory,
  neither message is written and the run does not end normally: \<open>open\<close> raises.
\<close>

theorem main_directory_input:
  "\<not> length [''prog'', ''d'', ''out.html''] < 3
   \<and> path_exists directory_os ([''prog'', ''d'', ''out.html''] ! 1) ()
   \<and> main directory_os [''prog'', ''d'', ''out.html''] () = Some (Uncaught IsADirectoryError, ())"
  by (simp add: main_def convert_markdown_to_html_def directory_os_def)

end
